theory Spec2Isabelle
  imports Main "HOL-Library.Word"
begin

section \<open>Strings\<close>

text \<open>
  A JavaScript string is a sequence of 16-bit code units. ASCII text is written with
  \<open>js\<close>; every other character is given by its UTF-16 code units (an emoji outside
  the basic plane is a surrogate pair).
\<close>

type_synonym jsstring = "16 word list"

definition js :: "string \<Rightarrow> jsstring" where
  "js s = map of_char s"

text \<open>\<^verbatim>\<open>String.prototype.startsWith\<close>: the code units of \<open>p\<close> open \<open>s\<close>.\<close>

definition startsWith :: "jsstring \<Rightarrow> jsstring \<Rightarrow> bool" where
  "startsWith s p = (take (length p) s = p)"

text \<open>
  \<^verbatim>\<open>x || d\<close> on a possibly undefined string: \<open>undefined\<close> and the empty string are
  falsy, every other string is kept.
\<close>

definition or_else :: "jsstring option \<Rightarrow> jsstring \<Rightarrow> jsstring" where
  "or_else x d = (case x of None \<Rightarrow> d | Some s \<Rightarrow> if s = [] then d else s)"

text \<open>A non-negative integer in a template literal prints in decimal.\<close>

definition digit :: "nat \<Rightarrow> 16 word" where
  "digit d = of_nat (48 + d)"

function show_nat :: "nat \<Rightarrow> jsstring" where
  "show_nat n = (if n < 10 then [digit n] else show_nat (n div 10) @ [digit (n mod 10)])"
  by pat_completeness auto
termination
  by (relation "measure id") auto

section \<open>The locator parser\<close>

text \<open>
  \<^verbatim>\<open>url.replace(/\.git$/, "").match(/github\.com\/([^\/]+)\/([^\/]+)/)\<close>,
  the same text in the browser library and in the server function.
  \<open>strip_git\<close> removes one \<^verbatim>\<open>.git\<close> that ends the string. \<open>match_here\<close> matches the
  pattern at the start of its argument: the literal \<^verbatim>\<open>github.com/\<close>, a greedy
  non-empty run of code units other than \<^verbatim>\<open>/\<close>, one \<^verbatim>\<open>/\<close>, and a second greedy
  non-empty run. \<open>regex_match\<close> is the unanchored search: the leftmost start position
  where the pattern matches.
\<close>

definition slash :: "16 word" where
  "slash = 0x2F"

definition gh_host :: jsstring where
  "gh_host = js ''github.com/''"

definition strip_git :: "jsstring \<Rightarrow> jsstring" where
  "strip_git url =
     (if 4 \<le> length url \<and> drop (length url - 4) url = js ''.git''
      then take (length url - 4) url else url)"

definition match_here :: "jsstring \<Rightarrow> (jsstring \<times> jsstring) option" where
  "match_here s =
     (if startsWith s gh_host then
        (let r = drop (length gh_host) s;
             ow = takeWhile (\<lambda>c. c \<noteq> slash) r;
             r' = dropWhile (\<lambda>c. c \<noteq> slash) r
         in if ow = [] \<or> r' = [] then None
            else (let rp = takeWhile (\<lambda>c. c \<noteq> slash) (tl r')
                  in if rp = [] then None else Some (ow, rp)))
      else None)"

fun regex_match :: "jsstring \<Rightarrow> (jsstring \<times> jsstring) option" where
  "regex_match [] = match_here []"
| "regex_match (c # cs) =
     (case match_here (c # cs) of Some m \<Rightarrow> Some m | None \<Rightarrow> regex_match cs)"

record locator =
  owner :: jsstring
  repo :: jsstring

definition invalid_url :: "jsstring \<Rightarrow> jsstring" where
  "invalid_url url = js ''URL inv'' @ [0xE1] @ js ''lida: '' @ url"

definition parseRepoUrl :: "jsstring \<Rightarrow> jsstring + locator" where
  "parseRepoUrl url =
     (case regex_match (strip_git url) of
        None \<Rightarrow> Inl (invalid_url url)
      | Some (ow, rp) \<Rightarrow> Inr \<lparr>owner = ow, repo = rp\<rparr>)"

section \<open>The browser side of the remote-execution variant\<close>

datatype severity = Info | Success | Warn | Error

text \<open>
  What the log sink receives: the message and its severity. The page's sink stamps each
  entry with the wall-clock time, which is left out.
\<close>

type_synonym log_entry = "jsstring \<times> severity"

definition check_mark :: jsstring where
  "check_mark = [0x2705]"

definition warning_sign :: jsstring where
  "warning_sign = [0x26A0, 0xFE0F]"

definition cross_mark :: jsstring where
  "cross_mark = [0x274C]"

definition parseIcon :: "jsstring \<Rightarrow> severity" where
  "parseIcon msg =
     (if startsWith msg check_mark then Success
      else if startsWith msg warning_sign then Warn
      else if startsWith msg cross_mark then Error
      else Info)"

text \<open>The JSON body the page sends, and the one the server function answers with.\<close>

record mirror_body =
  sourceUrl :: "jsstring option"
  destUrl :: "jsstring option"
  sourceToken :: "jsstring option"
  destToken :: "jsstring option"

record server_body =
  success :: "bool option"
  logs :: "jsstring list option"
  error :: "jsstring option"

text \<open>
  The outcome \<^verbatim>\<open>{ data, error }\<close> of \<^verbatim>\<open>supabase.functions.invoke\<close>: either an
  error object with its message, or the parsed body. The call itself (the library, the
  network and the server function behind it) is the parameter \<open>invoke\<close>.
\<close>

datatype invoke_result = InvokeError jsstring | InvokeData server_body

definition mirrorRepo_client ::
  "(mirror_body \<Rightarrow> invoke_result) \<Rightarrow> jsstring \<Rightarrow> jsstring \<Rightarrow> jsstring \<Rightarrow> jsstring
     \<Rightarrow> log_entry list \<Rightarrow> (jsstring + unit) \<times> log_entry list" where
  "mirrorRepo_client invoke sUrl dUrl sToken dToken sink =
     (let sink1 = sink @ [(js ''Iniciando mirror via servidor...'', Info)] in
      case invoke \<lparr>sourceUrl = Some sUrl, destUrl = Some dUrl,
                   sourceToken = Some sToken, destToken = Some dToken\<rparr> of
        InvokeError m \<Rightarrow>
          (Inl (or_else (Some m)
                  (js ''Erro ao chamar a fun'' @ [0xE7, 0xE3] @ js ''o de mirror'')), sink1)
      | InvokeData d \<Rightarrow>
          if success d \<noteq> Some True
          then (Inl (or_else (error d) (js ''Erro desconhecido no servidor'')), sink1)
          else (Inr (),
                sink1 @ map (\<lambda>logMsg. (logMsg, parseIcon logMsg))
                          (case logs d of None \<Rightarrow> [] | Some l \<Rightarrow> l)))"

text \<open>
  \<^verbatim>\<open>handleClone\<close> of the page: the log list is reset, the mirror runs with the page's
  sink, and a rejection is appended as one entry of severity \<open>Error\<close>. The result is
  the log list on display when the handler is done.
\<close>

definition handleClone ::
  "(mirror_body \<Rightarrow> invoke_result) \<Rightarrow> jsstring \<Rightarrow> jsstring \<Rightarrow> jsstring \<Rightarrow> jsstring
     \<Rightarrow> log_entry list" where
  "handleClone invoke sUrl dUrl sToken dToken =
     (case mirrorRepo_client invoke sUrl dUrl sToken dToken [] of
        (Inl m, sink) \<Rightarrow> sink @ [(or_else (Some m) (js ''Erro desconhecido''), Error)]
      | (Inr u, sink) \<Rightarrow> sink)"

section \<open>The remote object API\<close>

text \<open>
  The JSON values the hosting API answers with, reduced to the fields the program reads.
  \<open>etype\<close> is the entry's \<^verbatim>\<open>type\<close>, \<open>is_private\<close> the repository's
  \<^verbatim>\<open>private\<close>, \<open>commit_sha\<close> a branch's \<^verbatim>\<open>commit.sha\<close>; \<open>mode\<close> is
  \<open>None\<close> when the entry carries none.
\<close>

record file_entry =
  path :: jsstring
  sha :: jsstring
  etype :: jsstring
  mode :: "jsstring option"

record repo_json =
  full_name :: jsstring
  is_private :: bool
  default_branch :: jsstring

record branch_json =
  name :: jsstring
  commit_sha :: jsstring

datatype json =
    JNull
  | JRepo repo_json
  | JBranches "branch_json list"
  | JTree "file_entry list"
  | JRef jsstring
  | JSha jsstring
  | JBlob jsstring jsstring

text \<open>One entry of the tree the program submits: \<^verbatim>\<open>{ path, mode, type, sha }\<close>.\<close>

record tree_entry =
  entry_path :: jsstring
  entry_mode :: jsstring
  entry_type :: jsstring
  entry_sha :: jsstring

text \<open>
  The requests the program sends, one constructor per endpoint, with owner, repository
  and the bearer token of the side they go to:
  \<^item> \<open>GetRepo\<close>: \<^verbatim>\<open>GET /repos/O/R\<close>;
  \<^item> \<open>ListBranches\<close>: \<^verbatim>\<open>GET /repos/O/R/branches?per_page=100&page=N\<close>;
  \<^item> \<open>GetTree\<close>: \<^verbatim>\<open>GET /repos/O/R/git/trees/REF?recursive=1\<close>;
  \<^item> \<open>GetBlob\<close>: \<^verbatim>\<open>GET /repos/O/R/git/blobs/SHA\<close>;
  \<^item> \<open>GetRef\<close>: \<^verbatim>\<open>GET /repos/O/R/git/ref/heads/B\<close>;
  \<^item> \<open>CreateBlob\<close>: \<^verbatim>\<open>POST /repos/O/R/git/blobs\<close> with content and encoding;
  \<^item> \<open>CreateTree\<close>: \<^verbatim>\<open>POST /repos/O/R/git/trees\<close> with the entries;
  \<^item> \<open>CreateCommit\<close>: \<^verbatim>\<open>POST /repos/O/R/git/commits\<close> with message, tree, parents;
  \<^item> \<open>UpdateRef\<close>: \<^verbatim>\<open>PATCH /repos/O/R/git/refs/heads/B\<close> with sha and force;
  \<^item> \<open>CreateRef\<close>: \<^verbatim>\<open>POST /repos/O/R/git/refs\<close> with \<^verbatim>\<open>refs/heads/B\<close> and sha.
\<close>

datatype request =
    GetRepo jsstring jsstring jsstring
  | ListBranches jsstring jsstring nat jsstring
  | GetTree jsstring jsstring jsstring jsstring
  | GetBlob jsstring jsstring jsstring jsstring
  | GetRef jsstring jsstring jsstring jsstring
  | CreateBlob jsstring jsstring jsstring jsstring jsstring
  | CreateTree jsstring jsstring "tree_entry list" jsstring
  | CreateCommit jsstring jsstring jsstring jsstring "jsstring list" jsstring
  | UpdateRef jsstring jsstring jsstring jsstring bool jsstring
  | CreateRef jsstring jsstring jsstring jsstring jsstring

text \<open>
  An HTTP response: status, body as text, body as parsed JSON. The remote is any function
  from its own state and a request to a response (or \<open>Inl\<close>, when \<^verbatim>\<open>fetch\<close> itself
  rejects) and a new state; nothing is assumed about it.
\<close>

record reply =
  status :: nat
  body_text :: jsstring
  body_json :: json

type_synonym 'w remote = "'w \<Rightarrow> request \<Rightarrow> (jsstring + reply) \<times> 'w"

text \<open>
  A run carries the remote's state, the calls issued so far, each with what
  \<^verbatim>\<open>ghFetch\<close> returned or threw, and the log entries emitted so far.
\<close>

datatype event = Call request "jsstring + json"

record ('w, 'l) run =
  world :: 'w
  calls :: "event list"
  logged :: "'l list"

text \<open>
  An asynchronous function is a function from the run to its outcome, \<open>Inl\<close> the
  message of the error it throws, and the run after it. \<open>await\<close> sequences two of them
  and passes a rejection on; \<open>catch\<close> is \<^verbatim>\<open>try { m } catch (e) { h e }\<close>.
\<close>

type_synonym ('s, 'a) task = "'s \<Rightarrow> (jsstring + 'a) \<times> 's"

definition await :: "('s, 'a) task \<Rightarrow> ('a \<Rightarrow> ('s, 'b) task) \<Rightarrow> ('s, 'b) task" where
  "await m f s = (case m s of (Inl e, s') \<Rightarrow> (Inl e, s') | (Inr a, s') \<Rightarrow> f a s')"

definition resolve :: "'a \<Rightarrow> ('s, 'a) task" where
  "resolve a s = (Inr a, s)"

definition throw :: "jsstring \<Rightarrow> ('s, 'a) task" where
  "throw e s = (Inl e, s)"

definition catch :: "('s, 'a) task \<Rightarrow> (jsstring \<Rightarrow> ('s, 'a) task) \<Rightarrow> ('s, 'a) task" where
  "catch m h s = (case m s of (Inl e, s') \<Rightarrow> h e s' | (Inr a, s') \<Rightarrow> (Inr a, s'))"

definition log :: "'l \<Rightarrow> (('w, 'l) run, unit) task" where
  "log entry st = (Inr (), st\<lparr>logged := logged st @ [entry]\<rparr>)"

definition ok :: "reply \<Rightarrow> bool" where
  "ok res = (200 \<le> status res \<and> status res \<le> 299)"

definition ghFetch :: "'w remote \<Rightarrow> request \<Rightarrow> (('w, 'l) run, json) task" where
  "ghFetch api req st =
     (case api (world st) req of
        (res, w') \<Rightarrow>
          (let out =
             (case res of
                Inl e \<Rightarrow> Inl e
              | Inr res \<Rightarrow>
                  if \<not> ok res
                  then Inl (js ''GitHub API '' @ show_nat (status res) @ js '': '' @ body_text res)
                  else if status res = 204 then Inr JNull
                  else Inr (body_json res))
           in (out, st\<lparr>world := w', calls := calls st @ [Call req out]\<rparr>)))"

text \<open>
  Reading a field of a response. A body that is \<^verbatim>\<open>null\<close> or has another shape than
  the endpoint's raises a \<^verbatim>\<open>TypeError\<close>, whose message is the engine's.
\<close>

definition type_error :: jsstring where
  "type_error = js ''Cannot read properties of null''"

definition field :: "(json \<Rightarrow> 'a option) \<Rightarrow> json \<Rightarrow> ('s, 'a) task" where
  "field get j = (case get j of None \<Rightarrow> throw type_error | Some v \<Rightarrow> resolve v)"

definition repo_of :: "json \<Rightarrow> repo_json option" where
  "repo_of j = (case j of JRepo r \<Rightarrow> Some r | _ \<Rightarrow> None)"

definition tree_of :: "json \<Rightarrow> file_entry list option" where
  "tree_of j = (case j of JTree es \<Rightarrow> Some es | _ \<Rightarrow> None)"

definition object_sha_of :: "json \<Rightarrow> jsstring option" where
  "object_sha_of j = (case j of JRef s \<Rightarrow> Some s | _ \<Rightarrow> None)"

definition sha_of :: "json \<Rightarrow> jsstring option" where
  "sha_of j = (case j of JSha s \<Rightarrow> Some s | _ \<Rightarrow> None)"

definition blob_of :: "json \<Rightarrow> (jsstring \<times> jsstring) option" where
  "blob_of j = (case j of JBlob c e \<Rightarrow> Some (c, e) | _ \<Rightarrow> None)"

section \<open>The batch copy engine\<close>

text \<open>
  One entry: fetch the blob from the source, upload it to the destination, and build the
  tree entry. \<open>modeOf\<close> is the mode the caller writes into the entry.
\<close>

definition copyBlob ::
  "'w remote \<Rightarrow> 'x locator_scheme \<Rightarrow> jsstring \<Rightarrow> 'y locator_scheme \<Rightarrow> jsstring
     \<Rightarrow> (file_entry \<Rightarrow> jsstring) \<Rightarrow> file_entry \<Rightarrow> (('w, 'l) run, tree_entry) task" where
  "copyBlob api src sToken dst dToken modeOf blob =
     await (ghFetch api (GetBlob (owner src) (repo src) (sha blob) sToken)) (\<lambda>blobData.
     await (field blob_of blobData) (\<lambda>(content, encoding).
     await (ghFetch api (CreateBlob (owner dst) (repo dst) content encoding dToken)) (\<lambda>newBlob.
     await (field sha_of newBlob) (\<lambda>newSha.
     resolve \<lparr>entry_path = path blob, entry_mode = modeOf blob,
              entry_type = js ''blob'', entry_sha = newSha\<rparr>))))"

text \<open>
  \<^verbatim>\<open>Promise.all(batch.map(...))\<close>: the entries of one window run concurrently in the
  source. The model runs them one after the other in the window's order, which is one of
  the schedules, and stops at the first rejection, which is the rejection
  \<^verbatim>\<open>Promise.all\<close> passes on.
\<close>

fun copyBatch ::
  "(file_entry \<Rightarrow> (('w, 'l) run, tree_entry) task) \<Rightarrow> file_entry list
     \<Rightarrow> (('w, 'l) run, tree_entry list) task" where
  "copyBatch copy [] = resolve []"
| "copyBatch copy (blob # batch) =
     await (copy blob) (\<lambda>entry.
     await (copyBatch copy batch) (\<lambda>entries.
     resolve (entry # entries)))"

text \<open>
  \<^verbatim>\<open>for (let i = 0; i < blobs.length; i += W) { ... }\<close>: the window is
  \<^verbatim>\<open>blobs.slice(i, i + W)\<close>, its results are appended to the manifest, and
  \<open>after i\<close> is what the loop body does once the window is done (the progress line,
  where there is one). \<open>W\<close> is 5 in the browser library and 10 in the server function;
  the test \<open>0 < W\<close> is there for the definition to be total.
\<close>

function copyLoop ::
  "nat \<Rightarrow> (file_entry \<Rightarrow> (('w, 'l) run, tree_entry) task) \<Rightarrow> (nat \<Rightarrow> (('w, 'l) run, unit) task)
     \<Rightarrow> file_entry list \<Rightarrow> nat \<Rightarrow> tree_entry list \<Rightarrow> (('w, 'l) run, tree_entry list) task" where
  "copyLoop W copy after blobs i acc st =
     (if i < length blobs \<and> 0 < W then
        (case copyBatch copy (take W (drop i blobs)) st of
           (Inl e, st') \<Rightarrow> (Inl e, st')
         | (Inr results, st') \<Rightarrow>
             (case after i st' of
                (Inl e, st'') \<Rightarrow> (Inl e, st'')
              | (Inr u, st'') \<Rightarrow> copyLoop W copy after blobs (i + W) (acc @ results) st''))
      else (Inr acc, st))"
  by pat_completeness auto
termination
  by (relation "measure (\<lambda>(W, copy, after, blobs, i, acc, st). length blobs - i)") auto

section \<open>The browser library: \<^verbatim>\<open>cloneRepo\<close>\<close>

record repo_info = locator +
  fullName :: jsstring
  isPublic :: bool
  defaultBranch :: jsstring

definition start :: "'w \<Rightarrow> ('w, 'l) run" where
  "start w = \<lparr>world = w, calls = [], logged = []\<rparr>"

definition validateRepo :: "'w remote \<Rightarrow> jsstring \<Rightarrow> jsstring \<Rightarrow> (('w, 'l) run, repo_info) task" where
  "validateRepo api url token =
     (case parseRepoUrl url of
        Inl e \<Rightarrow> throw e
      | Inr loc \<Rightarrow>
          await (ghFetch api (GetRepo (owner loc) (repo loc) token)) (\<lambda>data.
          await (field repo_of data) (\<lambda>d.
          resolve \<lparr>owner = owner loc, repo = repo loc, fullName = full_name d,
                   isPublic = (\<not> is_private d), defaultBranch = default_branch d\<rparr>)))"

definition getTree ::
  "'w remote \<Rightarrow> jsstring \<Rightarrow> jsstring \<Rightarrow> jsstring \<Rightarrow> jsstring
     \<Rightarrow> (('w, 'l) run, file_entry list) task" where
  "getTree api ow rp branch token =
     await (ghFetch api (GetTree ow rp branch token)) (\<lambda>data. field tree_of data)"

definition wipe_message :: jsstring where
  "wipe_message = [0xD83D, 0xDDD1, 0xFE0F] @ js '' Limpar reposit'' @ [0xF3] @ js ''rio para mirror''"

definition deleteAllContents ::
  "'w remote \<Rightarrow> jsstring \<Rightarrow> jsstring \<Rightarrow> jsstring \<Rightarrow> jsstring
     \<Rightarrow> (('w, log_entry) run, unit) task" where
  "deleteAllContents api ow rp token branch =
     await (log (js ''Obtendo refer'' @ [0xEA] @ js ''ncia do branch de destino...'', Info)) (\<lambda>u.
     await (ghFetch api (GetRef ow rp branch token)) (\<lambda>refData.
     await (ghFetch api (CreateTree ow rp [] token)) (\<lambda>emptyTree.
     await (field sha_of emptyTree) (\<lambda>treeSha.
     await (field object_sha_of refData) (\<lambda>headSha.
     await (ghFetch api (CreateCommit ow rp wipe_message treeSha [headSha] token)) (\<lambda>emptyCommit.
     await (field sha_of emptyCommit) (\<lambda>commitSha.
     await (ghFetch api (UpdateRef ow rp branch commitSha True token)) (\<lambda>r.
     log (js ''Conte'' @ [0xFA] @ js ''do do destino removido '' @ [0x2713], Success)))))))))"

definition is_blob :: "file_entry \<Rightarrow> bool" where
  "is_blob e = (etype e = js ''blob'')"

definition copied_client :: "nat \<Rightarrow> nat \<Rightarrow> jsstring" where
  "copied_client k n = js ''Copiados '' @ show_nat k @ js ''/'' @ show_nat n @ js '' arquivos...''"

definition copyClient ::
  "'w remote \<Rightarrow> repo_info \<Rightarrow> jsstring \<Rightarrow> repo_info \<Rightarrow> jsstring \<Rightarrow> file_entry list
     \<Rightarrow> (('w, log_entry) run, tree_entry list) task" where
  "copyClient api source sToken dest dToken blobs =
     copyLoop 5
       (copyBlob api source sToken dest dToken (\<lambda>blob. js ''100644''))
       (\<lambda>i. log (copied_client (min (i + 5) (length blobs)) (length blobs), Info))
       blobs 0 []"

definition final_note :: jsstring where
  "final_note =
     js ''Nota: Este m'' @ [0xE9] @ js ''todo copia apenas os arquivos do branch padr''
     @ [0xE3] @ js ''o. Para mirror completo (todos os branches, commits e hist'' @ [0xF3]
     @ js ''rico), use o script Python dispon'' @ [0xED] @ js ''vel na aba '' @ [0x22]
     @ js ''Script Python'' @ [0x22] @ js ''.''"

definition cloneRepo ::
  "'w remote \<Rightarrow> jsstring \<Rightarrow> jsstring \<Rightarrow> jsstring \<Rightarrow> jsstring
     \<Rightarrow> (('w, log_entry) run, unit) task" where
  "cloneRepo api sUrl dUrl sToken dToken =
     await (log (js ''Validando reposit'' @ [0xF3] @ js ''rio de origem...'', Info)) (\<lambda>u.
     await (validateRepo api sUrl sToken) (\<lambda>source.
     if \<not> isPublic source
     then throw (js ''O reposit'' @ [0xF3] @ js ''rio de origem deve ser p'' @ [0xFA] @ js ''blico.'')
     else
     await (log (js ''Origem: '' @ fullName source @ js '' (branch: '' @ defaultBranch source
                   @ js '') '' @ [0x2713], Success)) (\<lambda>u.
     await (log (js ''Validando reposit'' @ [0xF3] @ js ''rio de destino...'', Info)) (\<lambda>u.
     await (validateRepo api dUrl dToken) (\<lambda>dest.
     if \<not> isPublic dest
     then throw (js ''O reposit'' @ [0xF3] @ js ''rio de destino deve ser p'' @ [0xFA] @ js ''blico.'')
     else
     await (log (js ''Destino: '' @ fullName dest @ js '' (branch: '' @ defaultBranch dest
                   @ js '') '' @ [0x2713], Success)) (\<lambda>u.
     await (log (js ''Limpando reposit'' @ [0xF3] @ js ''rio de destino...'', Info)) (\<lambda>u.
     await (deleteAllContents api (owner dest) (repo dest) dToken (defaultBranch dest)) (\<lambda>u.
     await (log (js ''Obtendo '' @ [0xE1] @ js ''rvore de arquivos da origem...'', Info)) (\<lambda>u.
     await (getTree api (owner source) (repo source) (defaultBranch source) sToken) (\<lambda>tree.
     await (log (show_nat (length (filter is_blob tree)) @ js '' arquivo(s) encontrado(s)'',
                 Info)) (\<lambda>u.
     await (log (js ''Copiando arquivos para o destino...'', Info)) (\<lambda>u.
     await (copyClient api source sToken dest dToken (filter is_blob tree)) (\<lambda>newTreeEntries.
     await (log (js ''Criando nova '' @ [0xE1] @ js ''rvore no destino...'', Info)) (\<lambda>u.
     await (ghFetch api (GetRef (owner dest) (repo dest) (defaultBranch dest) dToken)) (\<lambda>destRef.
     await (ghFetch api (CreateTree (owner dest) (repo dest) newTreeEntries dToken)) (\<lambda>newTree.
     await (log (js ''Criando commit no destino...'', Info)) (\<lambda>u.
     await (field sha_of newTree) (\<lambda>treeSha.
     await (field object_sha_of destRef) (\<lambda>headSha.
     await (ghFetch api (CreateCommit (owner dest) (repo dest)
              ([0xD83D, 0xDCE6] @ js '' Mirror de '' @ fullName source)
              treeSha [headSha] dToken)) (\<lambda>newCommit.
     await (field sha_of newCommit) (\<lambda>commitSha.
     await (ghFetch api (UpdateRef (owner dest) (repo dest) (defaultBranch dest)
              commitSha True dToken)) (\<lambda>r.
     await (log (check_mark @ js '' Mirror conclu'' @ [0xED] @ js ''do com sucesso!'', Success))
       (\<lambda>u.
     log (final_note, Warn))))))))))))))))))))))))"

section \<open>The server function: \<^verbatim>\<open>mirrorRepo\<close> and \<^verbatim>\<open>serve\<close>\<close>

text \<open>The log of the server function is a list of plain messages.\<close>

definition visibility :: "repo_json \<Rightarrow> jsstring" where
  "visibility d = (if is_private d then js ''privado'' else js ''p'' @ [0xFA] @ js ''blico'')"

text \<open>
  Steps 1 and 2, which differ in their two texts only: the opening line, the parse of
  the URL, the repository lookup, and the line that reports name, default branch and
  visibility.
\<close>

definition validateSide ::
  "jsstring \<Rightarrow> jsstring \<Rightarrow> 'w remote \<Rightarrow> jsstring \<Rightarrow> jsstring
     \<Rightarrow> (('w, jsstring) run, locator \<times> repo_json) task" where
  "validateSide opening label api url token =
     await (log opening) (\<lambda>u.
     case parseRepoUrl url of
       Inl e \<Rightarrow> throw e
     | Inr loc \<Rightarrow>
         await (ghFetch api (GetRepo (owner loc) (repo loc) token)) (\<lambda>data.
         await (field repo_of data) (\<lambda>d.
         await (log (check_mark @ label @ full_name d @ js '' (branch: '' @ default_branch d
                       @ js '', '' @ visibility d @ js '')'')) (\<lambda>u.
         resolve (loc, d)))))"

definition validateBoth ::
  "'w remote \<Rightarrow> jsstring \<Rightarrow> jsstring \<Rightarrow> jsstring \<Rightarrow> jsstring
     \<Rightarrow> (('w, jsstring) run, (locator \<times> repo_json) \<times> (locator \<times> repo_json)) task" where
  "validateBoth api sUrl dUrl sToken dToken =
     await (validateSide
              ([0xD83D, 0xDD0D] @ js '' Validando reposit'' @ [0xF3] @ js ''rio de origem...'')
              (js '' Origem: '') api sUrl sToken) (\<lambda>source.
     await (validateSide
              ([0xD83D, 0xDD0D] @ js '' Validando reposit'' @ [0xF3] @ js ''rio de destino...'')
              (js '' Destino: '') api dUrl dToken) (\<lambda>dest.
     await (log ([0xD83D, 0xDCCB] @ js '' Obtendo branches da origem...'')) (\<lambda>u.
     resolve (source, dest))))"

text \<open>
  Step 3, \<^verbatim>\<open>while (true)\<close> over the pages of the branch list. Nothing bounds the
  number of full pages a remote may serve, so the loop takes fuel and is \<open>None\<close> when
  the fuel runs out before a short or empty page.
\<close>

fun fetchBranches ::
  "nat \<Rightarrow> 'w remote \<Rightarrow> locator \<Rightarrow> jsstring \<Rightarrow> nat \<Rightarrow> branch_json list \<Rightarrow> ('w, 'l) run
     \<Rightarrow> ((jsstring + branch_json list) \<times> ('w, 'l) run) option" where
  "fetchBranches 0 api src token page sourceBranches st = None"
| "fetchBranches (Suc fuel) api src token page sourceBranches st =
     (case ghFetch api (ListBranches (owner src) (repo src) page token) st of
        (Inl e, st') \<Rightarrow> Some (Inl e, st')
      | (Inr JNull, st') \<Rightarrow> Some (Inr sourceBranches, st')
      | (Inr (JBranches branches), st') \<Rightarrow>
          if length branches = 0 then Some (Inr sourceBranches, st')
          else if length branches < 100 then Some (Inr (sourceBranches @ branches), st')
          else fetchBranches fuel api src token (page + 1) (sourceBranches @ branches) st'
      | (Inr other, st') \<Rightarrow> Some (Inl type_error, st'))"

definition found_branches :: "nat \<Rightarrow> jsstring" where
  "found_branches n = [0xD83D, 0xDCCB] @ js '' '' @ show_nat n @ js '' branch(es) encontrado(s)''"

definition found_files :: "nat \<Rightarrow> jsstring" where
  "found_files n = [0xD83D, 0xDCC2] @ js '' '' @ show_nat n @ js '' arquivo(s) encontrado(s)''"

definition copied_server :: "nat \<Rightarrow> nat \<Rightarrow> jsstring" where
  "copied_server k n =
     [0xD83D, 0xDCE6] @ js '' '' @ show_nat k @ js ''/'' @ show_nat n @ js '' arquivos copiados''"

definition summary :: "nat \<Rightarrow> nat \<Rightarrow> jsstring" where
  "summary files branches =
     [0xD83D, 0xDCCA] @ js '' Resumo: '' @ show_nat files @ js '' arquivos, ''
     @ show_nat branches @ js '' branch(es) copiado(s)''"

definition branch_copied :: "jsstring \<Rightarrow> jsstring" where
  "branch_copied nm = [0xD83D, 0xDD00] @ js '' Branch '' @ [0x27] @ nm @ [0x27] @ js '' copiado''"

definition branch_failed :: "jsstring \<Rightarrow> jsstring \<Rightarrow> jsstring" where
  "branch_failed nm e =
     warning_sign @ js '' Erro ao copiar branch '' @ [0x27] @ nm @ [0x27] @ js '': '' @ e"

text \<open>Step 4: the recursive tree of the source's default branch, blobs only.\<close>

definition fetchSourceTree ::
  "'w remote \<Rightarrow> locator \<Rightarrow> jsstring \<Rightarrow> jsstring \<Rightarrow> (('w, jsstring) run, file_entry list) task" where
  "fetchSourceTree api src sBranch sToken =
     await (log ([0xD83D, 0xDCC2] @ js '' Obtendo '' @ [0xE1]
                 @ js ''rvore de arquivos da origem...'')) (\<lambda>u.
     await (ghFetch api (GetTree (owner src) (repo src) sBranch sToken)) (\<lambda>tree.
     await (field tree_of tree) (\<lambda>entries.
     await (log (found_files (length (filter is_blob entries)))) (\<lambda>u.
     resolve (filter is_blob entries)))))"

text \<open>Step 5: the empty tree, the empty commit on the current head, the forced ref.\<close>

definition wipeDestination ::
  "'w remote \<Rightarrow> locator \<Rightarrow> jsstring \<Rightarrow> jsstring \<Rightarrow> (('w, jsstring) run, unit) task" where
  "wipeDestination api dst dBranch dToken =
     await (log ([0xD83D, 0xDDD1, 0xFE0F] @ js '' Limpando reposit'' @ [0xF3]
                 @ js ''rio de destino...'')) (\<lambda>u.
     await (ghFetch api (GetRef (owner dst) (repo dst) dBranch dToken)) (\<lambda>destRef.
     await (ghFetch api (CreateTree (owner dst) (repo dst) [] dToken)) (\<lambda>emptyTree.
     await (field sha_of emptyTree) (\<lambda>treeSha.
     await (field object_sha_of destRef) (\<lambda>headSha.
     await (ghFetch api (CreateCommit (owner dst) (repo dst) wipe_message treeSha [headSha]
              dToken)) (\<lambda>emptyCommit.
     await (field sha_of emptyCommit) (\<lambda>commitSha.
     await (ghFetch api (UpdateRef (owner dst) (repo dst) dBranch commitSha True dToken)) (\<lambda>r.
     log (check_mark @ js '' Destino limpo'')))))))))"

text \<open>Step 6: windows of 10, the entry's own mode when it has one.\<close>

definition server_mode :: "file_entry \<Rightarrow> jsstring" where
  "server_mode blob = or_else (mode blob) (js ''100644'')"

definition copyServer ::
  "'w remote \<Rightarrow> locator \<Rightarrow> jsstring \<Rightarrow> locator \<Rightarrow> jsstring \<Rightarrow> file_entry list
     \<Rightarrow> (('w, jsstring) run, tree_entry list) task" where
  "copyServer api src sToken dst dToken blobs =
     await (log ([0xD83D, 0xDCE6] @ js '' Copiando arquivos...'')) (\<lambda>u.
     copyLoop 10 (copyBlob api src sToken dst dToken server_mode)
       (\<lambda>i. log (copied_server (min (i + 10) (length blobs)) (length blobs)))
       blobs 0 [])"

text \<open>Step 7: tree and commit on the re-read head, then the forced ref.\<close>

definition commitDefault ::
  "'w remote \<Rightarrow> locator \<Rightarrow> jsstring \<Rightarrow> jsstring \<Rightarrow> jsstring \<Rightarrow> tree_entry list
     \<Rightarrow> (('w, jsstring) run, jsstring) task" where
  "commitDefault api dst dBranch dToken sourceName newTreeEntries =
     await (log ([0xD83C, 0xDF33] @ js '' Criando '' @ [0xE1] @ js ''rvore no destino...'')) (\<lambda>u.
     await (ghFetch api (GetRef (owner dst) (repo dst) dBranch dToken)) (\<lambda>currentDestRef.
     await (ghFetch api (CreateTree (owner dst) (repo dst) newTreeEntries dToken)) (\<lambda>newTree.
     await (field sha_of newTree) (\<lambda>treeSha.
     await (field object_sha_of currentDestRef) (\<lambda>headSha.
     await (ghFetch api (CreateCommit (owner dst) (repo dst)
              ([0xD83D, 0xDCE6] @ js '' Mirror de '' @ sourceName @ [0xA, 0xA]
               @ js ''Copiado via GitHub Repo Mirror'')
              treeSha [headSha] dToken)) (\<lambda>newCommit.
     await (field sha_of newCommit) (\<lambda>commitSha.
     await (ghFetch api (UpdateRef (owner dst) (repo dst) dBranch commitSha True dToken)) (\<lambda>r.
     resolve commitSha))))))))"

text \<open>
  Step 8, the body of the loop for one branch: everything inside the outer
  \<^verbatim>\<open>try\<close>, and the \<^verbatim>\<open>catch\<close> that turns a rejection into a warning line.
\<close>

definition copyBranch ::
  "'w remote \<Rightarrow> locator \<Rightarrow> jsstring \<Rightarrow> locator \<Rightarrow> jsstring \<Rightarrow> jsstring \<Rightarrow> branch_json
     \<Rightarrow> (('w, jsstring) run, unit) task" where
  "copyBranch api src sToken dst dToken newCommitSha branch =
     await (ghFetch api (GetTree (owner src) (repo src) (commit_sha branch) sToken))
       (\<lambda>branchTree.
     await (field tree_of branchTree) (\<lambda>entries.
     await (copyLoop 10 (copyBlob api src sToken dst dToken server_mode) (\<lambda>i. resolve ())
              (filter is_blob entries) 0 []) (\<lambda>branchTreeEntries.
     await (ghFetch api (CreateTree (owner dst) (repo dst) branchTreeEntries dToken)) (\<lambda>bTree.
     await (field sha_of bTree) (\<lambda>treeSha.
     await (ghFetch api (CreateCommit (owner dst) (repo dst)
              ([0xD83D, 0xDCE6] @ js '' Mirror branch: '' @ name branch)
              treeSha [newCommitSha] dToken)) (\<lambda>bCommit.
     await (field sha_of bCommit) (\<lambda>commitSha.
     await (catch
              (ghFetch api (CreateRef (owner dst) (repo dst) (js ''refs/heads/'' @ name branch)
                 commitSha dToken))
              (\<lambda>e. ghFetch api (UpdateRef (owner dst) (repo dst) (name branch) commitSha True
                 dToken))) (\<lambda>r.
     log (branch_copied (name branch))))))))))"

definition replicateBranch ::
  "'w remote \<Rightarrow> locator \<Rightarrow> jsstring \<Rightarrow> locator \<Rightarrow> jsstring \<Rightarrow> jsstring \<Rightarrow> branch_json
     \<Rightarrow> (('w, jsstring) run, unit) task" where
  "replicateBranch api src sToken dst dToken newCommitSha branch =
     catch (copyBranch api src sToken dst dToken newCommitSha branch)
       (\<lambda>e. log (branch_failed (name branch) e))"

fun replicateBranches ::
  "'w remote \<Rightarrow> locator \<Rightarrow> jsstring \<Rightarrow> locator \<Rightarrow> jsstring \<Rightarrow> jsstring \<Rightarrow> jsstring
     \<Rightarrow> branch_json list \<Rightarrow> (('w, jsstring) run, unit) task" where
  "replicateBranches api src sToken dst dToken sBranch newCommitSha [] = resolve ()"
| "replicateBranches api src sToken dst dToken sBranch newCommitSha (branch # rest) =
     (if name branch = sBranch
      then replicateBranches api src sToken dst dToken sBranch newCommitSha rest
      else await (replicateBranch api src sToken dst dToken newCommitSha branch) (\<lambda>u.
           replicateBranches api src sToken dst dToken sBranch newCommitSha rest))"

text \<open>
  The run from the branch count to the commit of the default branch (the end of step 3
  to step 7), the secondary branches (step 8), and the two closing lines.
\<close>

definition mirrorDefault ::
  "'w remote \<Rightarrow> locator \<times> repo_json \<Rightarrow> jsstring \<Rightarrow> locator \<times> repo_json \<Rightarrow> jsstring
     \<Rightarrow> branch_json list \<Rightarrow> (('w, jsstring) run, file_entry list \<times> jsstring) task" where
  "mirrorDefault api source sToken dest dToken sourceBranches =
     (case (source, dest) of ((src, sourceData), (dst, destData)) \<Rightarrow>
     await (log (found_branches (length sourceBranches))) (\<lambda>u.
     await (fetchSourceTree api src (default_branch sourceData) sToken) (\<lambda>blobs.
     await (wipeDestination api dst (default_branch destData) dToken) (\<lambda>u.
     await (copyServer api src sToken dst dToken blobs) (\<lambda>newTreeEntries.
     await (commitDefault api dst (default_branch destData) dToken (full_name sourceData)
              newTreeEntries) (\<lambda>newCommitSha.
     resolve (blobs, newCommitSha)))))))"

definition mirrorSecondary ::
  "'w remote \<Rightarrow> locator \<times> repo_json \<Rightarrow> jsstring \<Rightarrow> locator \<times> repo_json \<Rightarrow> jsstring
     \<Rightarrow> branch_json list \<Rightarrow> jsstring \<Rightarrow> (('w, jsstring) run, unit) task" where
  "mirrorSecondary api source sToken dest dToken sourceBranches newCommitSha =
     (if 1 < length sourceBranches
      then await (log ([0xD83D, 0xDD00] @ js '' Copiando branches adicionais...'')) (\<lambda>u.
           replicateBranches api (fst source) sToken (fst dest) dToken
             (default_branch (snd source)) newCommitSha sourceBranches)
      else resolve ())"

definition finish :: "file_entry list \<Rightarrow> branch_json list \<Rightarrow> (('w, jsstring) run, jsstring list) task" where
  "finish blobs sourceBranches =
     await (log (check_mark @ js '' Mirror conclu'' @ [0xED] @ js ''do com sucesso!'')) (\<lambda>u.
     await (log (summary (length blobs) (length sourceBranches))) (\<lambda>u.
     (\<lambda>st. (Inr (logged st), st))))"

definition mirrorRepo ::
  "nat \<Rightarrow> 'w remote \<Rightarrow> jsstring \<Rightarrow> jsstring \<Rightarrow> jsstring \<Rightarrow> jsstring \<Rightarrow> 'w
     \<Rightarrow> ((jsstring + jsstring list) \<times> ('w, jsstring) run) option" where
  "mirrorRepo fuel api sUrl dUrl sToken dToken w =
     (case validateBoth api sUrl dUrl sToken dToken (start w) of
        (Inl e, st) \<Rightarrow> Some (Inl e, st)
      | (Inr (source, dest), st) \<Rightarrow>
          (case fetchBranches fuel api (fst source) sToken 1 [] st of
             None \<Rightarrow> None
           | Some (Inl e, st') \<Rightarrow> Some (Inl e, st')
           | Some (Inr sourceBranches, st') \<Rightarrow>
               Some (await (mirrorDefault api source sToken dest dToken sourceBranches)
                       (\<lambda>(blobs, newCommitSha).
                     await (mirrorSecondary api source sToken dest dToken sourceBranches
                              newCommitSha) (\<lambda>u.
                     finish blobs sourceBranches)) st')))"

text \<open>
  The HTTP handler. \<open>req_json\<close> is the outcome of \<^verbatim>\<open>req.json()\<close>, \<open>Inl\<close> the
  message of the error it throws; a response without a body has \<open>None\<close>.
\<close>

record http_request =
  req_method :: jsstring
  req_json :: "jsstring + mirror_body"

record http_response =
  resp_status :: nat
  resp_body :: "server_body option"

definition falsy :: "jsstring option \<Rightarrow> bool" where
  "falsy x = (case x of None \<Rightarrow> True | Some s \<Rightarrow> s = [])"

definition failure :: "jsstring \<Rightarrow> http_response" where
  "failure message =
     \<lparr>resp_status = 500,
      resp_body = Some \<lparr>success = Some False, logs = None, error = Some message\<rparr>\<rparr>"

definition serve :: "nat \<Rightarrow> 'w remote \<Rightarrow> http_request \<Rightarrow> 'w \<Rightarrow> http_response option" where
  "serve fuel api req w =
     (if req_method req = js ''OPTIONS'' then Some \<lparr>resp_status = 200, resp_body = None\<rparr>
      else
        (case req_json req of
           Inl message \<Rightarrow> Some (failure message)
         | Inr b \<Rightarrow>
             if falsy (sourceUrl b) \<or> falsy (destUrl b) \<or> falsy (sourceToken b)
                \<or> falsy (destToken b)
             then Some \<lparr>resp_status = 400,
                        resp_body = Some \<lparr>success = None, logs = None,
                          error = Some (js ''Todos os campos s'' @ [0xE3] @ js ''o obrigat''
                                        @ [0xF3] @ js ''rios'')\<rparr>\<rparr>
             else
               (case mirrorRepo fuel api (the (sourceUrl b)) (the (destUrl b))
                       (the (sourceToken b)) (the (destToken b)) w of
                  None \<Rightarrow> None
                | Some (Inl message, st) \<Rightarrow> Some (failure message)
                | Some (Inr l, st) \<Rightarrow>
                    Some \<lparr>resp_status = 200,
                          resp_body = Some \<lparr>success = Some True, logs = Some l,
                                             error = None\<rparr>\<rparr>)))"

section \<open>Reading the record of calls\<close>

datatype kind =
    KGetRepo | KListBranches | KGetTree | KGetBlob | KGetRef
  | KCreateBlob | KCreateTree | KCreateCommit | KUpdateRef | KCreateRef

definition kind_of :: "request \<Rightarrow> kind" where
  "kind_of req =
     (case req of
        GetRepo ow rp tok \<Rightarrow> KGetRepo
      | ListBranches ow rp page tok \<Rightarrow> KListBranches
      | GetTree ow rp ref tok \<Rightarrow> KGetTree
      | GetBlob ow rp s tok \<Rightarrow> KGetBlob
      | GetRef ow rp b tok \<Rightarrow> KGetRef
      | CreateBlob ow rp c e tok \<Rightarrow> KCreateBlob
      | CreateTree ow rp es tok \<Rightarrow> KCreateTree
      | CreateCommit ow rp m t ps tok \<Rightarrow> KCreateCommit
      | UpdateRef ow rp b s f tok \<Rightarrow> KUpdateRef
      | CreateRef ow rp r s tok \<Rightarrow> KCreateRef)"

definition kind :: "event \<Rightarrow> kind" where
  "kind ev = (case ev of Call req res \<Rightarrow> kind_of req)"

text \<open>
  The commit an event creates: a commit request that was answered with the new object's
  id, in which repository. The commit an event points a ref at: the \<^verbatim>\<open>sha\<close> of a
  ref update or a ref creation, whatever the remote answered.
\<close>

definition created :: "event \<Rightarrow> (jsstring \<times> jsstring \<times> jsstring) option" where
  "created ev =
     (case ev of
        Call (CreateCommit ow rp m t ps tok) (Inr (JSha s)) \<Rightarrow> Some (ow, rp, s)
      | _ \<Rightarrow> None)"

definition ref_target :: "event \<Rightarrow> (jsstring \<times> jsstring \<times> jsstring) option" where
  "ref_target ev =
     (case ev of
        Call (UpdateRef ow rp b s f tok) res \<Rightarrow> Some (ow, rp, s)
      | Call (CreateRef ow rp r s tok) res \<Rightarrow> Some (ow, rp, s)
      | _ \<Rightarrow> None)"

text \<open>
  \<open>refs_ok cs evs\<close>: reading \<open>evs\<close> from the left with the commits \<open>cs\<close> already
  there, every ref is pointed at a commit that exists at that moment.
\<close>

fun refs_ok :: "(jsstring \<times> jsstring \<times> jsstring) list \<Rightarrow> event list \<Rightarrow> bool" where
  "refs_ok cs [] = True"
| "refs_ok cs (ev # evs) =
     ((case ref_target ev of None \<Rightarrow> True | Some c \<Rightarrow> c \<in> set cs)
      \<and> refs_ok (case created ev of None \<Rightarrow> cs | Some c \<Rightarrow> c # cs) evs)"

section \<open>A sample remote\<close>

text \<open>
  A remote without state for concrete runs. Every repository has the default branch
  \<^verbatim>\<open>main\<close>; the tree of \<^verbatim>\<open>main\<close> holds an executable file, a directory and a
  regular file, every other tree holds one regular file. \<open>priv\<close> is the visibility
  the repositories report, \<open>branches\<close> the page of branches, and a request in
  \<open>fails\<close> is answered with status 404.
\<close>

definition fixture_tree :: "jsstring \<Rightarrow> file_entry list" where
  "fixture_tree ref =
     (if ref = js ''main''
      then [\<lparr>path = js ''a.txt'', sha = js ''a1'', etype = js ''blob'',
              mode = Some (js ''100755'')\<rparr>,
            \<lparr>path = js ''docs'', sha = js ''t1'', etype = js ''tree'',
              mode = Some (js ''040000'')\<rparr>,
            \<lparr>path = js ''b.txt'', sha = js ''b1'', etype = js ''blob'',
              mode = Some (js ''100644'')\<rparr>]
      else [\<lparr>path = js ''c.txt'', sha = js ''c1'', etype = js ''blob'',
              mode = Some (js ''100644'')\<rparr>])"

definition fixture_json :: "bool \<Rightarrow> branch_json list \<Rightarrow> request \<Rightarrow> json" where
  "fixture_json priv branches req =
     (case req of
        GetRepo ow rp tok \<Rightarrow>
          JRepo \<lparr>full_name = ow @ js ''/'' @ rp, is_private = priv,
                 default_branch = js ''main''\<rparr>
      | ListBranches ow rp page tok \<Rightarrow> JBranches branches
      | GetTree ow rp ref tok \<Rightarrow> JTree (fixture_tree ref)
      | GetBlob ow rp s tok \<Rightarrow> JBlob (js ''eA=='') (js ''base64'')
      | GetRef ow rp b tok \<Rightarrow> JRef (js ''h0'')
      | CreateBlob ow rp c e tok \<Rightarrow> JSha (js ''n1'')
      | CreateTree ow rp es tok \<Rightarrow> JSha (js ''t2'')
      | CreateCommit ow rp m t ps tok \<Rightarrow> JSha (js ''c2'')
      | UpdateRef ow rp b s f tok \<Rightarrow> JRef s
      | CreateRef ow rp r s tok \<Rightarrow> JRef s)"

definition fixture :: "bool \<Rightarrow> branch_json list \<Rightarrow> (request \<Rightarrow> bool) \<Rightarrow> unit remote" where
  "fixture priv branches fails w req =
     (if fails req
      then (Inr \<lparr>status = 404, body_text = js ''Not Found'', body_json = JNull\<rparr>, w)
      else (Inr \<lparr>status = 200, body_text = [],
                 body_json = fixture_json priv branches req\<rparr>, w))"

definition never :: "request \<Rightarrow> bool" where
  "never req = False"

definition not_found :: jsstring where
  "not_found = js ''GitHub API '' @ show_nat 404 @ js '': '' @ js ''Not Found''"

definition main_dev :: "branch_json list" where
  "main_dev = [\<lparr>name = js ''main'', commit_sha = js ''m1''\<rparr>,
               \<lparr>name = js ''dev'', commit_sha = js ''d1''\<rparr>]"

definition demo_src :: locator where
  "demo_src = \<lparr>owner = js ''a'', repo = js ''src''\<rparr>"

definition demo_dst :: locator where
  "demo_dst = \<lparr>owner = js ''b'', repo = js ''dst''\<rparr>"

definition demo_source :: repo_info where
  "demo_source = \<lparr>owner = js ''a'', repo = js ''src'', fullName = js ''a/src'',
                   isPublic = True, defaultBranch = js ''main''\<rparr>"

definition demo_dest :: repo_info where
  "demo_dest = \<lparr>owner = js ''b'', repo = js ''dst'', fullName = js ''b/dst'',
                 isPublic = True, defaultBranch = js ''main''\<rparr>"

definition main_blobs :: "file_entry list" where
  "main_blobs = filter is_blob (fixture_tree (js ''main''))"

text \<open>
  The reference scenario: the source has \<^verbatim>\<open>main\<close> and \<^verbatim>\<open>dev\<close>, two files on
  \<^verbatim>\<open>main\<close> and one on \<^verbatim>\<open>dev\<close>, and no request fails.
\<close>

definition reference_run ::
  "bool \<Rightarrow> ((jsstring + jsstring list) \<times> (unit, jsstring) run) option" where
  "reference_run priv =
     mirrorRepo 2 (fixture priv main_dev never)
       (js ''https://github.com/a/src'') (js ''https://github.com/b/dst'')
       (js ''ts'') (js ''td'') ()"

definition calls_of :: "((jsstring + 'a) \<times> ('w, 'l) run) option \<Rightarrow> event list" where
  "calls_of r = (case r of None \<Rightarrow> [] | Some (res, st) \<Rightarrow> calls st)"

definition logs_of :: "((jsstring + jsstring list) \<times> ('w, 'l) run) option \<Rightarrow> jsstring list" where
  "logs_of r = (case r of Some (Inr l, st) \<Rightarrow> l | _ \<Rightarrow> [])"

section \<open>The order of calls\<close>








section \<open>Statements about tasks\<close>

text \<open>
  \<open>valid P m Q E\<close>: started in a state that satisfies \<open>P\<close>, the task \<open>m\<close> ends in a
  state that satisfies \<open>Q a\<close> when it returns \<open>a\<close>, and \<open>E\<close> when it throws.
\<close>

definition valid ::
  "('s \<Rightarrow> bool) \<Rightarrow> ('s, 'a) task \<Rightarrow> ('a \<Rightarrow> 's \<Rightarrow> bool) \<Rightarrow> ('s \<Rightarrow> bool) \<Rightarrow> bool" where
  "valid P m Q E \<longleftrightarrow>
     (\<forall>st. P st \<longrightarrow> (case m st of (Inl e, st') \<Rightarrow> E st' | (Inr a, st') \<Rightarrow> Q a st'))"



text \<open>
  A task that emits no log entry.
\<close>

definition silent :: "(('w, 'l) run, 'a) task \<Rightarrow> bool" where
  "silent m \<longleftrightarrow> (\<forall>st. logged (snd (m st)) = logged st)"

text \<open>
  The commits created by a list of events, and the invariant of a run: every ref moved
  so far points at a commit created before, and the commits of \<open>C\<close> exist.
\<close>

definition commits_of :: "event list \<Rightarrow> (jsstring \<times> jsstring \<times> jsstring) list" where
  "commits_of evs = concat (map (\<lambda>ev. case created ev of None \<Rightarrow> [] | Some c \<Rightarrow> [c]) evs)"

definition ref_inv :: "(jsstring \<times> jsstring \<times> jsstring) set \<Rightarrow> ('w, 'l) run \<Rightarrow> bool" where
  "ref_inv C st \<longleftrightarrow> refs_ok [] (calls st) \<and> C \<subseteq> set (commits_of (calls st))"

text \<open>
  The state holds the calls \<open>tr\<close> and the log \<open>lg\<close>, possibly with more after them.
\<close>

definition extends :: "event list \<Rightarrow> 'l list \<Rightarrow> ('w, 'l) run \<Rightarrow> bool" where
  "extends tr lg st \<longleftrightarrow> (\<exists>evs. calls st = tr @ evs) \<and> (\<exists>ls. logged st = lg @ ls)"

text \<open>
  \<open>committed\<close>: among the events there are a commit request for the branch, on top of
  \<open>parent\<close>, that was answered with an object id, and a ref creation or a forced ref
  update for the branch that points at that id and was accepted.
\<close>

definition commit_for ::
  "locator \<Rightarrow> jsstring \<Rightarrow> jsstring \<Rightarrow> branch_json \<Rightarrow> event \<Rightarrow> jsstring option" where
  "commit_for dst dToken parent branch ev =
     (case ev of
        Call (CreateCommit ow rp m t ps tok) (Inr (JSha c)) \<Rightarrow>
          if ow = owner dst \<and> rp = repo dst
             \<and> m = [0xD83D, 0xDCE6] @ js '' Mirror branch: '' @ name branch
             \<and> ps = [parent] \<and> tok = dToken
          then Some c else None
      | _ \<Rightarrow> None)"

definition points ::
  "locator \<Rightarrow> jsstring \<Rightarrow> branch_json \<Rightarrow> jsstring \<Rightarrow> event \<Rightarrow> bool" where
  "points dst dToken branch c ev =
     (case ev of
        Call (CreateRef ow rp r s tok) (Inr j) \<Rightarrow>
          ow = owner dst \<and> rp = repo dst \<and> r = js ''refs/heads/'' @ name branch
          \<and> s = c \<and> tok = dToken
      | Call (UpdateRef ow rp b s f tok) (Inr j) \<Rightarrow>
          ow = owner dst \<and> rp = repo dst \<and> b = name branch \<and> s = c \<and> f \<and> tok = dToken
      | _ \<Rightarrow> False)"

definition committed ::
  "locator \<Rightarrow> jsstring \<Rightarrow> jsstring \<Rightarrow> branch_json \<Rightarrow> event list \<Rightarrow> bool" where
  "committed dst dToken parent branch evs =
     list_ex (\<lambda>ev. case commit_for dst dToken parent branch ev of
                     None \<Rightarrow> False
                   | Some c \<Rightarrow> list_ex (points dst dToken branch c) evs) evs"

text \<open>
  Three lines of the server's log: the one that opens the secondary branches, the
  closing one, and the first of all.
\<close>

definition copying_branches :: jsstring where
  "copying_branches = [0xD83D, 0xDD00] @ js '' Copiando branches adicionais...''"

definition concluded :: jsstring where
  "concluded = check_mark @ js '' Mirror conclu'' @ [0xED] @ js ''do com sucesso!''"

definition first_entry :: jsstring where
  "first_entry = [0xD83D, 0xDD0D] @ js '' Validando reposit'' @ [0xF3] @ js ''rio de origem...''"

section \<open>More sample remotes\<close>

text \<open>
  What the sample remote answers for a repository, and whether a run returned a log.
\<close>

definition demo_repo :: "bool \<Rightarrow> locator \<Rightarrow> repo_json" where
  "demo_repo priv loc =
     \<lparr>full_name = owner loc @ js ''/'' @ repo loc, is_private = priv,
      default_branch = js ''main''\<rparr>"

definition succeeded :: "((jsstring + 'a) \<times> 's) option \<Rightarrow> bool" where
  "succeeded r = (case r of Some (Inr l, st) \<Rightarrow> True | _ \<Rightarrow> False)"

text \<open>
  A source with four branches, where listing the tree of \<^verbatim>\<open>feat\<close> fails.
\<close>

definition four_branches :: "branch_json list" where
  "four_branches = [\<lparr>name = js ''main'', commit_sha = js ''m1''\<rparr>,
                    \<lparr>name = js ''dev'', commit_sha = js ''d1''\<rparr>,
                    \<lparr>name = js ''feat'', commit_sha = js ''f1''\<rparr>,
                    \<lparr>name = js ''fix'', commit_sha = js ''x1''\<rparr>]"

definition feat_tree_fails :: "request \<Rightarrow> bool" where
  "feat_tree_fails req = (req = GetTree (js ''a'') (js ''src'') (js ''f1'') (js ''ts''))"


text \<open>
  A remote that answers every request with 404.
\<close>

definition always :: "request \<Rightarrow> bool" where
  "always req = True"

text \<open>
  The call of the browser side to the server function goes through a client library that
  is not part of the repository; \<open>mirrorRepo_client\<close> and \<open>handleClone\<close> take it as
  the parameter \<open>invoke\<close>. \<open>relay\<close> is a sample of it: it posts the body to a handler
  and either reports a response outside 200..299 as an error of its own (\<open>strict\<close>) or
  hands the body of any response over.
\<close>

definition non_2xx :: jsstring where
  "non_2xx = js ''Edge Function returned a non-2xx status code''"

definition relay ::
  "bool \<Rightarrow> (http_request \<Rightarrow> http_response option) \<Rightarrow> mirror_body \<Rightarrow> invoke_result" where
  "relay strict handler b =
     (case handler \<lparr>req_method = js ''POST'', req_json = Inr b\<rparr> of
        None \<Rightarrow> InvokeError (js ''Failed to send a request to the Edge Function'')
      | Some r \<Rightarrow>
          if strict \<and> \<not> (200 \<le> resp_status r \<and> resp_status r \<le> 299)
          then InvokeError non_2xx
          else (case resp_body r of
                  None \<Rightarrow> InvokeData \<lparr>success = None, logs = None, error = None\<rparr>
                | Some d \<Rightarrow> InvokeData d))"

definition demo_handler :: "(request \<Rightarrow> bool) \<Rightarrow> http_request \<Rightarrow> http_response option" where
  "demo_handler fails req = serve 2 (fixture False main_dev fails) req ()"

definition demo_body :: mirror_body where
  "demo_body = \<lparr>sourceUrl = Some (js ''https://github.com/a/src''),
                 destUrl = Some (js ''https://github.com/b/dst''),
                 sourceToken = Some (js ''ts''), destToken = Some (js ''td'')\<rparr>"

section \<open>Properties of the locator parser\<close>

lemma startsWith_iff: "startsWith s p \<longleftrightarrow> (\<exists>r. s = p @ r)"
  unfolding startsWith_def
  by (metis append_eq_conv_conj append_take_drop_id)

lemma takeWhile_stop:
  "slash \<notin> set xs \<Longrightarrow> takeWhile (\<lambda>c. c \<noteq> slash) (xs @ slash # ys) = xs"
  by (induction xs) auto

lemma dropWhile_stop:
  "slash \<notin> set xs \<Longrightarrow> dropWhile (\<lambda>c. c \<noteq> slash) (xs @ slash # ys) = slash # ys"
  by (induction xs) auto

lemma takeWhile_segment:
  "slash \<notin> set xs \<Longrightarrow> post = [] \<or> hd post = slash \<Longrightarrow>
   takeWhile (\<lambda>c. c \<noteq> slash) (xs @ post) = xs"
  by (induction xs) (auto simp: takeWhile_eq_Nil_iff)

lemma split_at_slash:
  assumes "dropWhile (\<lambda>c. c \<noteq> slash) r \<noteq> []"
  shows "r = takeWhile (\<lambda>c. c \<noteq> slash) r @ slash # tl (dropWhile (\<lambda>c. c \<noteq> slash) r)"
proof -
  have "hd (dropWhile (\<lambda>c. c \<noteq> slash) r) = slash"
    using assms hd_dropWhile [of "\<lambda>c. c \<noteq> slash" r] by auto
  then have "dropWhile (\<lambda>c. c \<noteq> slash) r = slash # tl (dropWhile (\<lambda>c. c \<noteq> slash) r)"
    using assms by (metis list.collapse)
  then show ?thesis
    by (metis takeWhile_dropWhile_id)
qed

lemma segment_rest:
  "dropWhile (\<lambda>c. c \<noteq> slash) t = [] \<or> hd (dropWhile (\<lambda>c. c \<noteq> slash) t) = slash"
  using hd_dropWhile [of "\<lambda>c. c \<noteq> slash" t] by auto

lemma slash_notin_takeWhile: "slash \<notin> set (takeWhile (\<lambda>c. c \<noteq> slash) t)"
  by (induction t) auto

text \<open>What a match at the start of \<open>s\<close> is, without the scanning functions.\<close>

lemma match_here_Some_iff:
  "match_here s = Some (ow, rp) \<longleftrightarrow>
     (\<exists>post. s = gh_host @ ow @ slash # rp @ post \<and> ow \<noteq> [] \<and> slash \<notin> set ow
        \<and> rp \<noteq> [] \<and> slash \<notin> set rp \<and> (post = [] \<or> hd post = slash))"
  (is "?L \<longleftrightarrow> ?R")
proof
  assume L: ?L
  then have sw: "startsWith s gh_host"
    by (auto simp: match_here_def split: if_splits)
  define r where "r = drop (length gh_host) s"
  define r' where "r' = dropWhile (\<lambda>c. c \<noteq> slash) r"
  have s: "s = gh_host @ r"
    using sw by (auto simp: startsWith_iff r_def)
  from L sw have ow: "ow = takeWhile (\<lambda>c. c \<noteq> slash) r" and ow_ne: "ow \<noteq> []"
    and r'_ne: "r' \<noteq> []" and rp: "rp = takeWhile (\<lambda>c. c \<noteq> slash) (tl r')" and rp_ne: "rp \<noteq> []"
    by (auto simp: match_here_def Let_def r_def r'_def split: if_splits)
  have r: "r = ow @ slash # tl r'"
    using split_at_slash [of r] r'_ne by (simp add: r'_def ow)
  define post where "post = dropWhile (\<lambda>c. c \<noteq> slash) (tl r')"
  have t: "tl r' = rp @ post"
    by (simp add: rp post_def)
  have eq: "s = gh_host @ ow @ slash # rp @ post"
    using s r t by metis
  have no1: "slash \<notin> set ow"
    unfolding ow by (rule slash_notin_takeWhile)
  have no2: "slash \<notin> set rp"
    unfolding rp by (rule slash_notin_takeWhile)
  have p: "post = [] \<or> hd post = slash"
    unfolding post_def by (rule segment_rest)
  show ?R
    using eq ow_ne no1 rp_ne no2 p by blast
next
  assume ?R
  then obtain post where s: "s = gh_host @ ow @ slash # rp @ post"
    and ow: "ow \<noteq> []" "slash \<notin> set ow"
    and rp: "rp \<noteq> []" "slash \<notin> set rp" and post: "post = [] \<or> hd post = slash"
    by blast
  have sw: "startsWith s gh_host"
    by (auto simp: startsWith_iff s)
  have d: "drop (length gh_host) s = ow @ slash # rp @ post"
    by (simp add: s)
  show ?L
    unfolding match_here_def
    using sw ow rp post
    by (simp add: d Let_def takeWhile_stop dropWhile_stop takeWhile_segment)
qed

lemma match_here_ex_iff:
  "(\<exists>m. match_here s = Some m) \<longleftrightarrow>
     (\<exists>ow c post. s = gh_host @ ow @ slash # c # post \<and> ow \<noteq> [] \<and> slash \<notin> set ow
        \<and> c \<noteq> slash)"
  (is "?L \<longleftrightarrow> ?R")
proof
  assume ?L
  then obtain ow rp where "match_here s = Some (ow, rp)" by auto
  then obtain post where s: "s = gh_host @ ow @ slash # rp @ post"
    and ow: "ow \<noteq> []" "slash \<notin> set ow"
    and rp: "rp \<noteq> []" "slash \<notin> set rp"
    unfolding match_here_Some_iff by blast
  obtain c cs where c: "rp = c # cs" using rp(1) by (cases rp) auto
  show ?R
    apply (rule exI [of _ ow], rule exI [of _ c], rule exI [of _ "cs @ post"])
    using s ow rp c by auto
next
  assume ?R
  then obtain ow c post where s: "s = gh_host @ ow @ slash # c # post"
    and ow: "ow \<noteq> []" "slash \<notin> set ow" and c: "c \<noteq> slash"
    by blast
  define rp where "rp = takeWhile (\<lambda>c. c \<noteq> slash) (c # post)"
  define post' where "post' = dropWhile (\<lambda>c. c \<noteq> slash) (c # post)"
  have split: "c # post = rp @ post'"
    by (simp add: rp_def post'_def del: takeWhile.simps dropWhile.simps)
  have rp_ne: "rp \<noteq> []"
    using c by (simp add: rp_def)
  have no: "slash \<notin> set rp"
    unfolding rp_def by (rule slash_notin_takeWhile)
  have p: "post' = [] \<or> hd post' = slash"
    unfolding post'_def by (rule segment_rest)
  have eq: "s = gh_host @ ow @ slash # rp @ post'"
    using s split by simp
  have "match_here s = Some (ow, rp)"
    unfolding match_here_Some_iff using eq ow rp_ne no p by blast
  then show ?L by blast
qed

lemma regex_match_ex_iff:
  "(\<exists>m. regex_match s = Some m) \<longleftrightarrow> (\<exists>pre post m. s = pre @ post \<and> match_here post = Some m)"
proof (induction s)
  case Nil
  then show ?case by simp
next
  case (Cons c cs)
  show ?case
  proof (cases "match_here (c # cs)")
    case (Some m)
    then have "c # cs = [] @ (c # cs) \<and> match_here (c # cs) = Some m" by simp
    then have "\<exists>pre post m. c # cs = pre @ post \<and> match_here post = Some m" by blast
    then show ?thesis using Some by simp
  next
    case None
    have "(\<exists>pre post m. c # cs = pre @ post \<and> match_here post = Some m)
          \<longleftrightarrow> (\<exists>pre post m. cs = pre @ post \<and> match_here post = Some m)"
      using None by (auto simp: Cons_eq_append_conv)
    then show ?thesis using None Cons.IH by simp
  qed
qed

lemma regex_match_sound:
  "regex_match s = Some m \<Longrightarrow> \<exists>pre post. s = pre @ post \<and> match_here post = Some m"
proof (induction s)
  case Nil
  then show ?case by simp
next
  case (Cons c cs)
  show ?case
  proof (cases "match_here (c # cs)")
    case None
    with Cons obtain pre post where "cs = pre @ post" "match_here post = Some m"
      by auto
    then have "c # cs = (c # pre) @ post \<and> match_here post = Some m" by simp
    then show ?thesis by blast
  next
    case (Some a)
    with Cons.prems have "c # cs = [] @ (c # cs) \<and> match_here (c # cs) = Some m" by simp
    then show ?thesis by blast
  qed
qed

lemma parseRepoUrl_Inr_iff:
  "parseRepoUrl url = Inr loc \<longleftrightarrow> regex_match (strip_git url) = Some (owner loc, repo loc)"
  by (cases loc) (auto simp: parseRepoUrl_def split: option.splits)

lemma parseRepoUrl_fails:
  "(\<nexists>loc. parseRepoUrl url = Inr loc) \<Longrightarrow> parseRepoUrl url = Inl (invalid_url url)"
  by (auto simp: parseRepoUrl_def split: option.splits)

text \<open>
  C7 (amended). The parser is a function of its argument alone and calls nothing. It
  succeeds exactly when the string, after one trailing \<^verbatim>\<open>.git\<close> is removed, contains
  somewhere the text \<^verbatim>\<open>github.com/\<close> followed by a non-empty segment without
  \<^verbatim>\<open>/\<close>, one \<^verbatim>\<open>/\<close> and one more code unit other than \<^verbatim>\<open>/\<close>; the two segments
  of such an occurrence are the owner and the repository name. In every other case (no
  \<^verbatim>\<open>github.com/\<close> at all, or fewer than two segments after it) it fails with the
  invalid-URL error. The text need not be the host of the URL.
\<close>

theorem parseRepoUrl_unanchored:
  "((\<exists>loc. parseRepoUrl url = Inr loc) \<longleftrightarrow>
      (\<exists>pre ow c post. strip_git url = pre @ gh_host @ ow @ slash # c # post
          \<and> ow \<noteq> [] \<and> slash \<notin> set ow \<and> c \<noteq> slash))
   \<and> (\<forall>loc. parseRepoUrl url = Inr loc \<longrightarrow>
         (\<exists>pre post. strip_git url = pre @ gh_host @ owner loc @ slash # repo loc @ post
            \<and> owner loc \<noteq> [] \<and> slash \<notin> set (owner loc)
            \<and> repo loc \<noteq> [] \<and> slash \<notin> set (repo loc)
            \<and> (post = [] \<or> hd post = slash)))
   \<and> ((\<nexists>loc. parseRepoUrl url = Inr loc) \<longrightarrow> parseRepoUrl url = Inl (invalid_url url))"
proof (intro conjI allI impI)
  have "(\<exists>loc. parseRepoUrl url = Inr loc) \<longleftrightarrow> (\<exists>m. regex_match (strip_git url) = Some m)"
    by (auto simp: parseRepoUrl_def split: option.splits)
  also have "\<dots> \<longleftrightarrow> (\<exists>pre post m. strip_git url = pre @ post \<and> match_here post = Some m)"
    by (rule regex_match_ex_iff)
  also have "\<dots> \<longleftrightarrow> (\<exists>pre ow c post. strip_git url = pre @ gh_host @ ow @ slash # c # post
          \<and> ow \<noteq> [] \<and> slash \<notin> set ow \<and> c \<noteq> slash)"
  proof
    assume "\<exists>pre post m. strip_git url = pre @ post \<and> match_here post = Some m"
    then obtain pre post where p: "strip_git url = pre @ post" and "\<exists>m. match_here post = Some m"
      by blast
    then obtain ow c post' where "post = gh_host @ ow @ slash # c # post'"
      "ow \<noteq> []" "slash \<notin> set ow" "c \<noteq> slash"
      unfolding match_here_ex_iff by blast
    with p show "\<exists>pre ow c post. strip_git url = pre @ gh_host @ ow @ slash # c # post
          \<and> ow \<noteq> [] \<and> slash \<notin> set ow \<and> c \<noteq> slash"
      by blast
  next
    assume "\<exists>pre ow c post. strip_git url = pre @ gh_host @ ow @ slash # c # post
          \<and> ow \<noteq> [] \<and> slash \<notin> set ow \<and> c \<noteq> slash"
    then obtain pre ow c post where p: "strip_git url = pre @ (gh_host @ ow @ slash # c # post)"
      and q: "ow \<noteq> []" "slash \<notin> set ow" "c \<noteq> slash"
      by auto
    from q have "\<exists>m. match_here (gh_host @ ow @ slash # c # post) = Some m"
      unfolding match_here_ex_iff by blast
    with p show "\<exists>pre post m. strip_git url = pre @ post \<and> match_here post = Some m"
      by blast
  qed
  finally show "(\<exists>loc. parseRepoUrl url = Inr loc) \<longleftrightarrow>
      (\<exists>pre ow c post. strip_git url = pre @ gh_host @ ow @ slash # c # post
          \<and> ow \<noteq> [] \<and> slash \<notin> set ow \<and> c \<noteq> slash)" .
next
  fix loc assume "parseRepoUrl url = Inr loc"
  then have "regex_match (strip_git url) = Some (owner loc, repo loc)"
    by (simp add: parseRepoUrl_Inr_iff)
  then obtain pre post where "strip_git url = pre @ post" "match_here post = Some (owner loc, repo loc)"
    using regex_match_sound by blast
  then show "\<exists>pre post. strip_git url = pre @ gh_host @ owner loc @ slash # repo loc @ post
            \<and> owner loc \<noteq> [] \<and> slash \<notin> set (owner loc)
            \<and> repo loc \<noteq> [] \<and> slash \<notin> set (repo loc)
            \<and> (post = [] \<or> hd post = slash)"
    unfolding match_here_Some_iff by blast
next
  assume "\<nexists>loc. parseRepoUrl url = Inr loc"
  then show "parseRepoUrl url = Inl (invalid_url url)"
    by (rule parseRepoUrl_fails)
qed

theorem parseRepoUrl_unanchored_witness:
  "parseRepoUrl (js ''https://github.com/a/b.git'') = Inr \<lparr>owner = js ''a'', repo = js ''b''\<rparr>
   \<and> (\<exists>pre post. strip_git (js ''https://github.com/a/b.git'')
                     = pre @ gh_host @ js ''a'' @ slash # js ''b'' @ post)
   \<and> parseRepoUrl (js ''https://github.com/a'') = Inl (invalid_url (js ''https://github.com/a''))"
proof -
  have a: "parseRepoUrl (js ''https://github.com/a/b.git'')
             = Inr \<lparr>owner = js ''a'', repo = js ''b''\<rparr>"
    by code_simp
  have "\<forall>loc. parseRepoUrl (js ''https://github.com/a/b.git'') = Inr loc \<longrightarrow>
         (\<exists>pre post. strip_git (js ''https://github.com/a/b.git'')
                        = pre @ gh_host @ owner loc @ slash # repo loc @ post
            \<and> owner loc \<noteq> [] \<and> slash \<notin> set (owner loc)
            \<and> repo loc \<noteq> [] \<and> slash \<notin> set (repo loc)
            \<and> (post = [] \<or> hd post = slash))"
    using parseRepoUrl_unanchored [of "js ''https://github.com/a/b.git''"] by (elim conjE)
  with a have b: "\<exists>pre post. strip_git (js ''https://github.com/a/b.git'')
                     = pre @ gh_host @ js ''a'' @ slash # js ''b'' @ post"
    by fastforce
  have "parseRepoUrl (js ''https://github.com/a'') = Inl (invalid_url (js ''https://github.com/a''))"
    by code_simp
  then have "\<nexists>loc. parseRepoUrl (js ''https://github.com/a'') = Inr loc"
    by simp
  then have c: "parseRepoUrl (js ''https://github.com/a'')
                  = Inl (invalid_url (js ''https://github.com/a''))"
    using parseRepoUrl_unanchored [of "js ''https://github.com/a''"] by (elim conjE) simp
  from a b c show ?thesis by simp
qed

text \<open>
  C7, as stated, fails: a URL whose host is \<^verbatim>\<open>example.org\<close> is accepted, because
  \<^verbatim>\<open>github.com/\<close> occurs in its path.
\<close>

theorem parseRepoUrl_foreign_host:
  "parseRepoUrl (js ''https://example.org/github.com/a/b'')
     = Inr \<lparr>owner = js ''a'', repo = js ''b''\<rparr>"
  by code_simp

section \<open>Properties of the log replay\<close>

text \<open>
  C10. When the call succeeds (a body with \<^verbatim>\<open>success: true\<close>), the sink receives the
  opening entry and then one entry per server message, in the server's order, each with
  the severity \<open>parseIcon\<close> gives it. That severity depends on the first two code
  units of the message only: a message that starts with the check mark is a success,
  with the warning sign (U+26A0 U+FE0F) a warning, with the cross mark an error, and
  any other message is informational.
\<close>

theorem replay_order_and_severity:
  "(invoke \<lparr>sourceUrl = Some sUrl, destUrl = Some dUrl,
             sourceToken = Some sToken, destToken = Some dToken\<rparr> = InvokeData d
      \<and> success d = Some True \<longrightarrow>
    mirrorRepo_client invoke sUrl dUrl sToken dToken sink =
      (Inr (), sink @ (js ''Iniciando mirror via servidor...'', Info)
                 # map (\<lambda>m. (m, parseIcon m)) (case logs d of None \<Rightarrow> [] | Some l \<Rightarrow> l)))
   \<and> parseIcon (check_mark @ r) = Success
   \<and> parseIcon (warning_sign @ r) = Warn
   \<and> parseIcon (cross_mark @ r) = Error
   \<and> (\<not> startsWith m check_mark \<and> \<not> startsWith m warning_sign \<and> \<not> startsWith m cross_mark
        \<longrightarrow> parseIcon m = Info)
   \<and> (take 2 m = take 2 m' \<longrightarrow> parseIcon m = parseIcon m')"
proof (intro conjI impI)
  assume "invoke \<lparr>sourceUrl = Some sUrl, destUrl = Some dUrl,
             sourceToken = Some sToken, destToken = Some dToken\<rparr> = InvokeData d
      \<and> success d = Some True"
  then show "mirrorRepo_client invoke sUrl dUrl sToken dToken sink =
      (Inr (), sink @ (js ''Iniciando mirror via servidor...'', Info)
                 # map (\<lambda>m. (m, parseIcon m)) (case logs d of None \<Rightarrow> [] | Some l \<Rightarrow> l))"
    by (simp add: mirrorRepo_client_def)
next
  show "parseIcon (check_mark @ r) = Success"
    by (simp add: parseIcon_def startsWith_def)
  show "parseIcon (warning_sign @ r) = Warn"
    by (simp add: parseIcon_def startsWith_def check_mark_def warning_sign_def)
  show "parseIcon (cross_mark @ r) = Error"
    by (simp add: parseIcon_def startsWith_def check_mark_def warning_sign_def cross_mark_def)
next
  assume "\<not> startsWith m check_mark \<and> \<not> startsWith m warning_sign \<and> \<not> startsWith m cross_mark"
  then show "parseIcon m = Info" by (simp add: parseIcon_def)
next
  assume eq: "take 2 m = take 2 m'"
  then have two: "take (Suc (Suc 0)) m = take (Suc (Suc 0)) m'"
    by (simp add: numeral_2_eq_2)
  from eq have "take 1 (take 2 m) = take 1 (take 2 m')" by simp
  then have one: "take (Suc 0) m = take (Suc 0) m'" by simp
  show "parseIcon m = parseIcon m'"
    by (simp add: parseIcon_def startsWith_def check_mark_def warning_sign_def cross_mark_def
        one two)
qed

theorem replay_order_and_severity_witness:
  "mirrorRepo_client
     (\<lambda>b. InvokeData \<lparr>success = Some True,
                       logs = Some [check_mark @ js ''ok'', js ''plain''],
                       error = None\<rparr>)
     (js ''s'') (js ''d'') (js ''t'') (js ''u'') []
   = (Inr (), [(js ''Iniciando mirror via servidor...'', Info),
               (check_mark @ js ''ok'', Success), (js ''plain'', Info)])"
proof -
  let ?d = "\<lparr>success = Some True, logs = Some [check_mark @ js ''ok'', js ''plain''],
             error = None\<rparr>"
  have i: "\<not> startsWith (js ''plain'') check_mark \<and> \<not> startsWith (js ''plain'') warning_sign
           \<and> \<not> startsWith (js ''plain'') cross_mark"
    by code_simp
  note t = replay_order_and_severity
      [of "\<lambda>b. InvokeData ?d" "js ''s''" "js ''d''" "js ''t''" "js ''u''" ?d
          "[]" "js ''ok''" "js ''plain''" "js ''plain''"]
  have a: "parseIcon (check_mark @ js ''ok'') = Success"
    using t by (elim conjE)
  have b: "parseIcon (js ''plain'') = Info"
    using t i by (elim conjE) blast
  have c: "mirrorRepo_client (\<lambda>b. InvokeData ?d) (js ''s'') (js ''d'') (js ''t'') (js ''u'') []
     = (Inr (), [] @ (js ''Iniciando mirror via servidor...'', Info)
                 # map (\<lambda>m. (m, parseIcon m)) (case logs ?d of None \<Rightarrow> [] | Some l \<Rightarrow> l))"
    using t by (elim conjE) simp
  show ?thesis
    unfolding c by (simp add: a b)
qed

declare show_nat.simps [simp del]
declare copyLoop.simps [simp del]

section \<open>Steps, logs and results\<close>

subsection \<open>Primitive steps\<close>

lemma ghFetch_calls:
  "ghFetch api req st = (res, st') \<Longrightarrow> calls st' = calls st @ [Call req res]"
  by (auto simp: ghFetch_def Let_def split: prod.splits)

lemma ghFetch_logged:
  "ghFetch api req st = (res, st') \<Longrightarrow> logged st' = logged st"
  by (auto simp: ghFetch_def Let_def split: prod.splits)

lemma awaitE:
  assumes "await m f st = (res, st')"
  obtains (reject) e where "m st = (Inl e, st')" "res = Inl e"
        | (continue) a s1 where "m st = (Inr a, s1)" "f a s1 = (res, st')"
  using assms by (auto simp: await_def split: prod.splits sum.splits)

lemma catchE:
  assumes "catch m h st = (res, st')"
  obtains (caught) e s1 where "m st = (Inl e, s1)" "h e s1 = (res, st')"
        | (passed) a where "m st = (Inr a, st')" "res = Inr a"
  using assms by (auto simp: catch_def split: prod.splits sum.splits)

subsection \<open>Tasks that emit no log entry\<close>

lemma silentD: "silent m \<Longrightarrow> m st = (res, st') \<Longrightarrow> logged st' = logged st"
  by (auto simp: silent_def dest: spec [of _ st])

lemma silent_ghFetch [intro!, simp]: "silent (ghFetch api req)"
  unfolding silent_def
proof
  fix st :: "('a, 'b) run"
  obtain res st' where r: "ghFetch api req st = (res, st')" by (cases "ghFetch api req st")
  then show "logged (snd (ghFetch api req st)) = logged st"
    by (simp add: ghFetch_logged [OF r])
qed

lemma silent_resolve [intro!, simp]: "silent (resolve a)"
  by (simp add: silent_def resolve_def)

lemma silent_throw [intro!, simp]: "silent (throw e)"
  by (simp add: silent_def throw_def)

lemma silent_field [intro!, simp]: "silent (field get j)"
  by (simp add: silent_def field_def resolve_def throw_def split: option.splits)

lemma silent_await [intro!]:
  assumes "silent m" "\<And>a. silent (f a)"
  shows "silent (await m f)"
  unfolding silent_def
proof
  fix st
  obtain r s1 where m: "m st = (r, s1)" by (cases "m st")
  then have l: "logged s1 = logged st" using assms(1) by (rule silentD [rotated])
  show "logged (snd (await m f st)) = logged st"
  proof (cases r)
    case (Inl e)
    then show ?thesis using m l by (simp add: await_def)
  next
    case (Inr a)
    obtain r2 s2 where f: "f a s1 = (r2, s2)" by (cases "f a s1")
    then have "logged s2 = logged s1" using assms(2) by (rule silentD [rotated])
    then show ?thesis using m l Inr f by (simp add: await_def)
  qed
qed

lemma silent_catch [intro!]:
  assumes "silent m" "\<And>e. silent (h e)"
  shows "silent (catch m h)"
  unfolding silent_def
proof
  fix st
  obtain r s1 where m: "m st = (r, s1)" by (cases "m st")
  then have l: "logged s1 = logged st" using assms(1) by (rule silentD [rotated])
  show "logged (snd (catch m h st)) = logged st"
  proof (cases r)
    case (Inr a)
    then show ?thesis using m l by (simp add: catch_def)
  next
    case (Inl e)
    obtain r2 s2 where f: "h e s1 = (r2, s2)" by (cases "h e s1")
    then have "logged s2 = logged s1" using assms(2) by (rule silentD [rotated])
    then show ?thesis using m l Inl f by (simp add: catch_def)
  qed
qed

lemma silent_case_prod [intro!]:
  "(\<And>a b. silent (f a b)) \<Longrightarrow> silent (case p of (a, b) \<Rightarrow> f a b)"
  by (cases p) simp

lemma silent_copyBlob [intro!, simp]: "silent (copyBlob api src sToken dst dToken modeOf blob)"
  unfolding copyBlob_def by (intro silent_await silent_case_prod silent_ghFetch silent_field silent_resolve)

lemma silent_copyBatch [intro!]:
  "(\<And>b. silent (copy b)) \<Longrightarrow> silent (copyBatch copy batch)"
  by (induction batch) auto

subsection \<open>What the copy loop returns and logs\<close>




lemma silent_copyLoop:
  "copyLoop W copy after blobs i acc st = (res, st') \<Longrightarrow> (\<And>b. silent (copy b)) \<Longrightarrow>
   (\<And>i. silent (after i)) \<Longrightarrow> logged st' = logged st"
proof (induction W copy after blobs i acc st rule: copyLoop.induct)
  case (1 W copy after blobs i acc st)
  show ?case
  proof (cases "i < length blobs \<and> 0 < W")
    case False
    with "1.prems" show ?thesis
      by (auto simp: copyLoop.simps [of W copy after blobs i acc st])
  next
    case True
    obtain rb s1 where b: "copyBatch copy (take W (drop i blobs)) st = (rb, s1)"
      by (cases "copyBatch copy (take W (drop i blobs)) st")
    have l1: "logged s1 = logged st"
      using silentD [OF silent_copyBatch b] "1.prems"(2) by simp
    show ?thesis
    proof (cases rb)
      case (Inl e)
      with True b "1.prems"(1) l1 show ?thesis
        by (auto simp: copyLoop.simps [of W copy after blobs i acc st])
    next
      case (Inr results)
      obtain ra s2 where a: "after i s1 = (ra, s2)" by (cases "after i s1")
      have l2: "logged s2 = logged s1" using "1.prems"(3) a by (rule silentD)
      show ?thesis
      proof (cases ra)
        case (Inl e)
        with True b \<open>rb = Inr results\<close> a "1.prems"(1) l1 l2 show ?thesis
          by (auto simp: copyLoop.simps [of W copy after blobs i acc st])
      next
        case (Inr u)
        with True b \<open>rb = Inr results\<close> a "1.prems"(1)
        have l: "copyLoop W copy after blobs (i + W) (acc @ results) s2 = (res, st')"
          by (auto simp: copyLoop.simps [of W copy after blobs i acc st])
        have "logged st' = logged s2"
          using "1.IH" True b a \<open>rb = Inr results\<close> Inr l "1.prems"(2,3)
          by auto
        with l1 l2 show ?thesis by simp
      qed
    qed
  qed
qed

subsection \<open>The progress lines of the copy loop\<close>





section \<open>Running the sample remote\<close>

lemma unit_world [simp]: "(st :: (unit, 'l) run)\<lparr>world := w\<rparr> = st"
  by (cases st) simp

lemma ghFetch_fixture:
  "ghFetch (fixture priv branches fails) req st =
     (if fails req
      then (Inl not_found, st\<lparr>calls := calls st @ [Call req (Inl not_found)]\<rparr>)
      else (Inr (fixture_json priv branches req),
            st\<lparr>calls := calls st @ [Call req (Inr (fixture_json priv branches req))]\<rparr>))"
  by (simp add: ghFetch_def fixture_def ok_def not_found_def Let_def)

lemma of_char_word_inj: "(of_char x :: 16 word) = of_char y \<Longrightarrow> x = y"
proof -
  assume "(of_char x :: 16 word) = of_char y"
  then have "(of_nat (of_char x) :: 16 word) = of_nat (of_char y)"
    by (simp only: of_nat_of_char)
  then have "unat (of_nat (of_char x) :: 16 word) = unat (of_nat (of_char y) :: 16 word)"
    by simp
  then have m: "(of_char x :: nat) mod 65536 = of_char y mod 65536"
    by (simp add: unat_of_nat)
  have "(of_char x :: nat) mod 256 = of_char x" "(of_char y :: nat) mod 256 = of_char y"
    by simp_all
  then have "(of_char x :: nat) < 256" "(of_char y :: nat) < 256"
    by (metis mod_less_divisor zero_less_numeral)+
  with m have "(of_char x :: nat) = of_char y"
    by simp
  then show "x = y" by simp
qed

lemma js_eq_iff: "js a = js b \<longleftrightarrow> a = b"
proof
  assume "js a = js b"
  then show "a = b"
    unfolding js_def
    by (induction a arbitrary: b) (auto dest: of_char_word_inj)
qed simp

lemma js_empty_iff: "js a = [] \<longleftrightarrow> a = []"
  by (simp add: js_def)

lemma copyLoop_empty: "copyLoop W copy after [] 0 [] = resolve []"
  by (rule ext) (simp add: resolve_def copyLoop.simps)

lemma copyLoop_single_window:
  assumes "0 < W" "length blobs \<le> W" "blobs \<noteq> []"
  shows "copyLoop W copy after blobs 0 [] =
           await (copyBatch copy blobs) (\<lambda>results. await (after 0) (\<lambda>u. resolve results))"
proof (rule ext)
  fix st
  show "copyLoop W copy after blobs 0 [] st =
           await (copyBatch copy blobs) (\<lambda>results. await (after 0) (\<lambda>u. resolve results)) st"
    using assms
    by (subst copyLoop.simps) (auto simp: await_def resolve_def split: prod.splits sum.splits
        simp: copyLoop.simps [of W copy after blobs W])
qed

lemma src_url:
  "parseRepoUrl (js ''https://github.com/a/src'') = Inr \<lparr>owner = js ''a'', repo = js ''src''\<rparr>"
  by code_simp

lemma dst_url:
  "parseRepoUrl (js ''https://github.com/b/dst'') = Inr \<lparr>owner = js ''b'', repo = js ''dst''\<rparr>"
  by code_simp

lemmas exec = await_def resolve_def throw_def log_def field_def catch_def
  repo_of_def tree_of_def object_sha_of_def sha_of_def blob_of_def
  ghFetch_fixture fixture_json_def fixture_tree_def js_eq_iff js_empty_iff is_blob_def never_def
  copyLoop_empty copyLoop_single_window copyBlob_def start_def
  validateSide_def validateBoth_def fetchSourceTree_def wipeDestination_def copyServer_def
  commitDefault_def copyBranch_def replicateBranch_def mirrorDefault_def mirrorSecondary_def
  finish_def mirrorRepo_def src_url dst_url main_dev_def kind_def kind_of_def
  demo_src_def demo_dst_def demo_source_def demo_dest_def main_blobs_def
  copyClient_def server_mode_def or_else_def calls_of_def logs_of_def reference_run_def





section \<open>Modes of the submitted tree entries\<close>




section \<open>Progress lines\<close>




section \<open>Rules for triples\<close>

lemma validD:
  "valid P m Q E \<Longrightarrow> P st \<Longrightarrow> m st = (res, st') \<Longrightarrow>
     (case res of Inl e \<Rightarrow> E st' | Inr a \<Rightarrow> Q a st')"
  by (auto simp: valid_def split: sum.splits dest!: spec [of _ st])

lemma valid_await:
  assumes "valid P m Q E" "\<And>a. valid (Q a) (f a) R E"
  shows "valid P (await m f) R E"
  unfolding valid_def
proof (intro allI impI)
  fix st assume P: "P st"
  obtain r s1 where m: "m st = (r, s1)" by (cases "m st")
  show "case await m f st of (Inl e, st') \<Rightarrow> E st' | (Inr a, st') \<Rightarrow> R a st'"
  proof (cases r)
    case (Inl e)
    with validD [OF assms(1) P m] m show ?thesis by (simp add: await_def)
  next
    case (Inr a)
    with validD [OF assms(1) P m] have "Q a s1" by simp
    with assms(2) [of a] have "case f a s1 of (Inl e, st') \<Rightarrow> E st' | (Inr b, st') \<Rightarrow> R b st'"
      by (simp add: valid_def)
    with m Inr show ?thesis by (simp add: await_def)
  qed
qed

lemma valid_catch:
  assumes "valid P m Q E'" "\<And>e. valid E' (h e) Q E"
  shows "valid P (catch m h) Q E"
  unfolding valid_def
proof (intro allI impI)
  fix st assume P: "P st"
  obtain r s1 where m: "m st = (r, s1)" by (cases "m st")
  show "case catch m h st of (Inl e, st') \<Rightarrow> E st' | (Inr a, st') \<Rightarrow> Q a st'"
  proof (cases r)
    case (Inr a)
    with validD [OF assms(1) P m] m show ?thesis by (simp add: catch_def)
  next
    case (Inl e)
    with validD [OF assms(1) P m] have "E' s1" by simp
    with assms(2) [of e] have "case h e s1 of (Inl e, st') \<Rightarrow> E st' | (Inr b, st') \<Rightarrow> Q b st'"
      by (simp add: valid_def)
    with m Inl show ?thesis by (simp add: catch_def)
  qed
qed

lemma valid_if:
  "valid P a Q E \<Longrightarrow> valid P b Q E \<Longrightarrow> valid P (if c then a else b) Q E"
  by simp

lemma valid_case_sum:
  "(\<And>e. valid P (f e) Q E) \<Longrightarrow> (\<And>a. valid P (g a) Q E) \<Longrightarrow>
   valid P (case x of Inl e \<Rightarrow> f e | Inr a \<Rightarrow> g a) Q E"
  by (cases x) simp_all

lemma valid_case_prod:
  "(\<And>a b. valid P (f a b) Q E) \<Longrightarrow> valid P (case p of (a, b) \<Rightarrow> f a b) Q E"
  by (cases p) simp

lemma valid_resolve: "(\<And>st. P st \<Longrightarrow> Q a st) \<Longrightarrow> valid P (resolve a) Q E"
  by (simp add: valid_def resolve_def)

lemma valid_throw: "(\<And>st. P st \<Longrightarrow> E st) \<Longrightarrow> valid P (throw e) Q E"
  by (simp add: valid_def throw_def)

lemma valid_field:
  "(\<And>st v. P st \<Longrightarrow> get j = Some v \<Longrightarrow> Q v st) \<Longrightarrow> (\<And>st. P st \<Longrightarrow> E st) \<Longrightarrow>
   valid P (field get j) Q E"
  by (simp add: valid_def field_def resolve_def throw_def split: option.splits)

lemma valid_copyBatch:
  assumes "\<And>b. valid I (copy b) (\<lambda>e. I) E"
  shows "valid I (copyBatch copy batch) (\<lambda>es. I) E"
  by (induction batch) (auto intro!: valid_await valid_resolve assms)

lemma valid_copyLoop:
  assumes "\<And>b. valid I (copy b) (\<lambda>e. I) E" and "\<And>i. valid I (after i) (\<lambda>u. I) E"
  shows "valid I (copyLoop W copy after blobs i acc) (\<lambda>es. I) E"
  unfolding valid_def
proof (intro allI impI)
  fix st
  assume "I st"
  then show "case copyLoop W copy after blobs i acc st of
               (Inl e, st') \<Rightarrow> E st' | (Inr es, st') \<Rightarrow> I st'"
    using assms
  proof (induction W copy after blobs i acc st rule: copyLoop.induct)
    case (1 W copy after blobs i acc st)
    note batch = valid_copyBatch [of I copy E, OF "1.prems"(2)]
    show ?case
    proof (cases "i < length blobs \<and> 0 < W")
      case False
      with "1.prems"(1) show ?thesis
        by (auto simp: copyLoop.simps [of W copy after blobs i acc st])
    next
      case True
      obtain rb s1 where b: "copyBatch copy (take W (drop i blobs)) st = (rb, s1)"
        by (cases "copyBatch copy (take W (drop i blobs)) st")
      note vb = validD [OF batch "1.prems"(1) b]
      show ?thesis
      proof (cases rb)
        case (Inl e)
        with True b vb show ?thesis
          by (simp add: copyLoop.simps [of W copy after blobs i acc st])
      next
        case (Inr results)
        with vb have s1: "I s1" by simp
        obtain ra s2 where a: "after i s1 = (ra, s2)" by (cases "after i s1")
        note va = validD [OF "1.prems"(3) s1 a]
        show ?thesis
        proof (cases ra)
          case (Inl e)
          with True b \<open>rb = Inr results\<close> a va show ?thesis
            by (simp add: copyLoop.simps [of W copy after blobs i acc st])
        next
          case (Inr u)
          with va have s2: "I s2" by simp
          have "case copyLoop W copy after blobs (i + W) (acc @ results) s2 of
                  (Inl e, st') \<Rightarrow> E st' | (Inr es, st') \<Rightarrow> I st'"
            by (rule "1.IH" [OF True b [symmetric] \<open>rb = Inr results\<close> a [symmetric] Inr s2
                  "1.prems"(2) "1.prems"(3)])
          with True b \<open>rb = Inr results\<close> a Inr show ?thesis
            by (simp add: copyLoop.simps [of W copy after blobs i acc st])
        qed
      qed
    qed
  qed
qed

subsection \<open>The order of calls\<close>































section \<open>Refs are moved to commits that exist\<close>

subsection \<open>Refs and the commits they point at\<close>

lemma commits_of_simps [simp]:
  "commits_of [] = []"
  "commits_of (ev # evs) = (case created ev of None \<Rightarrow> [] | Some c \<Rightarrow> [c]) @ commits_of evs"
  "commits_of (xs @ ys) = commits_of xs @ commits_of ys"
  by (simp_all add: commits_of_def)

lemma refs_ok_snoc:
  "refs_ok cs (evs @ [ev]) \<longleftrightarrow>
     refs_ok cs evs \<and> (\<forall>c. ref_target ev = Some c \<longrightarrow> c \<in> set cs \<union> set (commits_of evs))"
  by (induction evs arbitrary: cs) (auto split: option.splits)

lemma refs_ok_prefix: "refs_ok cs (xs @ ys) \<Longrightarrow> refs_ok cs xs"
  by (induction xs arbitrary: cs) auto

lemma inv_weaken: "ref_inv C st \<Longrightarrow> D \<subseteq> C \<Longrightarrow> ref_inv D st"
  by (auto simp: ref_inv_def)

lemma safe_log: "valid (ref_inv C) (log x) (\<lambda>u. ref_inv C) E"
  by (simp add: valid_def log_def ref_inv_def)

lemma ghFetch_inv:
  assumes "ref_inv C st" "ghFetch api req st = (res, st')"
    "\<And>c. ref_target (Call req res) = Some c \<Longrightarrow> c \<in> C"
  shows "ref_inv (C \<union> set (commits_of [Call req res])) st'"
  using assms by (auto simp: ref_inv_def ghFetch_calls refs_ok_snoc split: option.splits)

lemma safe_ghFetch:
  assumes "\<And>res c. ref_target (Call req res) = Some c \<Longrightarrow> c \<in> C"
  shows "valid (ref_inv C) (ghFetch api req) (\<lambda>j. ref_inv C) (ref_inv C)"
  unfolding valid_def
proof (intro allI impI)
  fix st :: "('a, 'b) run"
  assume a: "ref_inv C st"
  obtain res st' where r: "ghFetch api req st = (res, st')" by (cases "ghFetch api req st")
  have "ref_inv C st'"
    by (rule inv_weaken [OF ghFetch_inv [OF a r]]) (auto dest: assms)
  then show "case ghFetch api req st of (Inl e, st') \<Rightarrow> ref_inv C st' | (Inr j, st') \<Rightarrow> ref_inv C st'"
    using r by (auto split: sum.splits)
qed

lemma safe_resolve: "valid (ref_inv C) (resolve a) (\<lambda>u. ref_inv C) E"
  by (rule valid_resolve)

lemma safe_throw: "valid (ref_inv C) (throw e) Q (ref_inv C)"
  by (rule valid_throw)

lemma safe_field: "valid (ref_inv C) (field get j) (\<lambda>v. ref_inv C) (ref_inv C)"
  by (rule valid_field)

text \<open>
  A commit request followed by the read of the new commit's id: what comes next may
  point refs at that commit.
\<close>

lemma safe_commit:
  assumes k: "\<And>s. valid (ref_inv (insert (ow, rp, s) C)) (k s) (\<lambda>u. ref_inv (insert (ow, rp, s) C))
                   (ref_inv (insert (ow, rp, s) C))"
  shows "valid (ref_inv C)
           (await (ghFetch api (CreateCommit ow rp m t ps tok)) (\<lambda>c. await (field sha_of c) k))
           (\<lambda>u. ref_inv C) (ref_inv C)"
  unfolding valid_def
proof (intro allI impI)
  fix st :: "('a, 'b) run"
  assume a: "ref_inv C st"
  let ?req = "CreateCommit ow rp m t ps tok"
  obtain res s1 where r: "ghFetch api ?req st = (res, s1)" by (cases "ghFetch api ?req st")
  have i1: "ref_inv (C \<union> set (commits_of [Call ?req res])) s1"
    by (rule ghFetch_inv [OF a r]) (simp add: ref_target_def)
  then have c1: "ref_inv C s1" by (rule inv_weaken) simp
  show "case await (ghFetch api ?req) (\<lambda>c. await (field sha_of c) k) st of
          (Inl e, st') \<Rightarrow> ref_inv C st' | (Inr u, st') \<Rightarrow> ref_inv C st'"
  proof (cases res)
    case (Inl e)
    with r c1 show ?thesis by (simp add: await_def)
  next
    case (Inr j)
    show ?thesis
    proof (cases "sha_of j")
      case None
      with r Inr c1 show ?thesis by (simp add: await_def field_def throw_def)
    next
      case (Some s)
      then have j: "j = JSha s" by (auto simp: sha_of_def split: json.splits)
      have i2: "ref_inv (insert (ow, rp, s) C) s1"
        using i1 Inr j by (simp add: created_def)
      obtain r2 s2 where k2: "k s s1 = (r2, s2)" by (cases "k s s1")
      from validD [OF k i2 k2] have "ref_inv (insert (ow, rp, s) C) s2"
        by (cases r2) simp_all
      then have "ref_inv C s2" by (rule inv_weaken) auto
      with r Inr Some k2 show ?thesis
        by (cases r2) (simp_all add: await_def field_def resolve_def)
    qed
  qed
qed

lemmas safe_steps =
  safe_commit valid_await valid_if valid_case_sum valid_case_prod
  safe_log safe_resolve safe_throw safe_field safe_ghFetch

lemma safe_copyBlob:
  "valid (ref_inv C) (copyBlob api src sToken dst dToken modeOf blob) (\<lambda>e. ref_inv C) (ref_inv C)"
  unfolding copyBlob_def
  by (rule safe_steps | simp add: ref_target_def)+

lemma safe_validateRepo:
  "valid (ref_inv C) (validateRepo api url token) (\<lambda>u. ref_inv C) (ref_inv C)"
  unfolding validateRepo_def
  by (rule safe_steps | simp add: ref_target_def)+

lemma safe_deleteAllContents:
  "valid (ref_inv C) (deleteAllContents api ow rp token branch) (\<lambda>u. ref_inv C) (ref_inv C)"
  unfolding deleteAllContents_def
  by (rule safe_steps | simp add: ref_target_def)+

lemma safe_getTree:
  "valid (ref_inv C) (getTree api ow rp branch token) (\<lambda>u. ref_inv C) (ref_inv C)"
  unfolding getTree_def
  by (rule safe_steps | simp add: ref_target_def)+

lemma safe_copyClient:
  "valid (ref_inv C) (copyClient api source sToken dest dToken blobs) (\<lambda>u. ref_inv C) (ref_inv C)"
  unfolding copyClient_def
  by (rule valid_copyLoop safe_copyBlob safe_log)+

lemma safe_cloneRepo:
  "valid (ref_inv {}) (cloneRepo api sUrl dUrl sToken dToken) (\<lambda>u. ref_inv {}) (ref_inv {})"
  unfolding cloneRepo_def
  by (rule safe_steps safe_validateRepo safe_deleteAllContents safe_getTree safe_copyClient
      | simp add: ref_target_def)+

lemma safe_validateSide:
  "valid (ref_inv C) (validateSide opening label api url token) (\<lambda>u. ref_inv C) (ref_inv C)"
  unfolding validateSide_def
  by (rule safe_steps | simp add: ref_target_def)+

lemma safe_validateBoth:
  "valid (ref_inv C) (validateBoth api sUrl dUrl sToken dToken) (\<lambda>u. ref_inv C) (ref_inv C)"
  unfolding validateBoth_def
  by (rule safe_steps safe_validateSide | simp add: ref_target_def)+

lemma safe_fetchBranches:
  "fetchBranches fuel api src token page acc st = Some (res, st') \<Longrightarrow> ref_inv C st \<Longrightarrow> ref_inv C st'"
proof (induction fuel arbitrary: page acc st)
  case 0
  then show ?case by simp
next
  case (Suc fuel)
  obtain r s1 where f: "ghFetch api (ListBranches (owner src) (repo src) page token) st = (r, s1)"
    by (cases "ghFetch api (ListBranches (owner src) (repo src) page token) st")
  have s1: "ref_inv C s1"
    by (rule inv_weaken [OF ghFetch_inv [OF Suc.prems(2) f]]) (simp_all add: ref_target_def)
  show ?case
  proof (cases r)
    case (Inl e)
    with Suc.prems(1) f s1 show ?thesis by auto
  next
    case (Inr j)
    show ?thesis
    proof (cases j)
      case (JBranches branches)
      show ?thesis
      proof (cases "length branches = 0 \<or> length branches < 100")
        case True
        with Suc.prems(1) f Inr JBranches s1 show ?thesis
          by (auto split: if_splits)
      next
        case False
        with Suc.prems(1) f Inr JBranches
        have "fetchBranches fuel api src token (page + 1) (acc @ branches) s1 = Some (res, st')"
          by simp
        from Suc.IH [OF this s1] show ?thesis .
      qed
    qed (use Suc.prems(1) f Inr s1 in auto)
  qed
qed

lemma safe_fetchSourceTree:
  "valid (ref_inv C) (fetchSourceTree api src sBranch sToken) (\<lambda>u. ref_inv C) (ref_inv C)"
  unfolding fetchSourceTree_def
  by (rule safe_steps | simp add: ref_target_def)+

lemma safe_wipeDestination:
  "valid (ref_inv C) (wipeDestination api dst dBranch dToken) (\<lambda>u. ref_inv C) (ref_inv C)"
  unfolding wipeDestination_def
  by (rule safe_steps | simp add: ref_target_def)+

lemma safe_copyServer:
  "valid (ref_inv C) (copyServer api src sToken dst dToken blobs) (\<lambda>u. ref_inv C) (ref_inv C)"
  unfolding copyServer_def
  by (rule valid_await valid_copyLoop safe_copyBlob safe_log)+

lemma safe_commitDefault:
  "valid (ref_inv C) (commitDefault api dst dBranch dToken sourceName entries) (\<lambda>u. ref_inv C) (ref_inv C)"
  unfolding commitDefault_def
  by (rule safe_steps | simp add: ref_target_def)+

lemma safe_mirrorDefault:
  "valid (ref_inv C) (mirrorDefault api source sToken dest dToken sourceBranches)
     (\<lambda>u. ref_inv C) (ref_inv C)"
  unfolding mirrorDefault_def
  by (rule safe_steps safe_fetchSourceTree safe_wipeDestination safe_copyServer
        safe_commitDefault)+

lemma safe_copyBranch:
  "valid (ref_inv C) (copyBranch api src sToken dst dToken newCommitSha branch)
     (\<lambda>u. ref_inv C) (ref_inv C)"
  unfolding copyBranch_def
  by (rule safe_steps valid_catch [where E' = "ref_inv (insert c C)" for c]
        valid_copyLoop safe_copyBlob
      | simp add: ref_target_def)+

lemma safe_replicateBranch:
  "valid (ref_inv C) (replicateBranch api src sToken dst dToken newCommitSha branch)
     (\<lambda>u. ref_inv C) (ref_inv C)"
  unfolding replicateBranch_def
  by (rule valid_catch [where E' = "ref_inv C"] safe_copyBranch safe_log)+

lemma safe_replicateBranches:
  "valid (ref_inv C) (replicateBranches api src sToken dst dToken sBranch newCommitSha branches)
     (\<lambda>u. ref_inv C) (ref_inv C)"
  by (induction branches) (auto intro!: valid_await safe_replicateBranch safe_resolve)

lemma safe_mirrorSecondary:
  "valid (ref_inv C) (mirrorSecondary api source sToken dest dToken sourceBranches newCommitSha)
     (\<lambda>u. ref_inv C) (ref_inv C)"
  unfolding mirrorSecondary_def
  by (rule valid_if valid_await safe_log safe_replicateBranches safe_resolve)+

lemma safe_finish: "valid (ref_inv C) (finish blobs sourceBranches) (\<lambda>u. ref_inv C) (ref_inv C)"
  unfolding finish_def
  by (rule valid_await safe_log)+ (simp add: valid_def)

lemma safe_mirrorRepo:
  assumes "mirrorRepo fuel api sUrl dUrl sToken dToken w = Some (res, st)"
  shows "ref_inv {} st"
proof -
  have i: "ref_inv {} (start w :: ('a, jsstring) run)"
    by (simp add: ref_inv_def start_def)
  obtain r1 s1 where v: "validateBoth api sUrl dUrl sToken dToken (start w) = (r1, s1)"
    by (cases "validateBoth api sUrl dUrl sToken dToken (start w)")
  from validD [OF safe_validateBoth i v] have s1: "ref_inv {} s1"
    by (cases r1) simp_all
  show ?thesis
  proof (cases r1)
    case (Inl e)
    with assms v s1 show ?thesis by (auto simp: mirrorRepo_def)
  next
    case (Inr sd)
    obtain source dest where sd: "sd = (source, dest)" by (cases sd)
    from assms v Inr sd obtain r2 s2 where
      f: "fetchBranches fuel api (fst source) sToken 1 [] s1 = Some (r2, s2)"
      by (auto simp: mirrorRepo_def split: option.splits)
    have s2: "ref_inv {} s2" by (rule safe_fetchBranches [OF f s1])
    show ?thesis
    proof (cases r2)
      case (Inl e)
      with assms v \<open>r1 = Inr sd\<close> sd f s2 show ?thesis by (auto simp: mirrorRepo_def)
    next
      case (Inr sourceBranches)
      have t: "valid (ref_inv {})
              (await (mirrorDefault api source sToken dest dToken sourceBranches)
                 (\<lambda>(blobs, newCommitSha).
                    await (mirrorSecondary api source sToken dest dToken sourceBranches
                             newCommitSha) (\<lambda>u. finish blobs sourceBranches)))
              (\<lambda>l. ref_inv {}) (ref_inv {})"
        by (rule valid_await valid_case_prod safe_mirrorDefault safe_mirrorSecondary
              safe_finish)+
      have run: "await (mirrorDefault api source sToken dest dToken sourceBranches)
                 (\<lambda>(blobs, newCommitSha).
                    await (mirrorSecondary api source sToken dest dToken sourceBranches
                             newCommitSha) (\<lambda>u. finish blobs sourceBranches)) s2 = (res, st)"
        using assms f by (simp add: mirrorRepo_def v \<open>r1 = Inr sd\<close> sd Inr)
      from validD [OF t s2 run] show ?thesis
        by (cases res) simp_all
    qed
  qed
qed

section \<open>What a run adds to the record and to the log\<close>

subsection \<open>Calls and log entries are only ever added\<close>

lemma extends_refl: "extends (calls st) (logged st) st"
  by (simp add: extends_def)

lemma extends_trans:
  "extends (calls st) (logged st) st' \<Longrightarrow> extends tr lg st \<Longrightarrow> extends tr lg st'"
  by (auto simp: extends_def)

lemma grow_log: "valid (extends tr lg) (log x) (\<lambda>u. extends tr lg) E"
  by (auto simp: valid_def log_def extends_def)

lemma grow_ghFetch: "valid (extends tr lg) (ghFetch api req) (\<lambda>j. extends tr lg) (extends tr lg)"
  unfolding valid_def
proof (intro allI impI)
  fix st :: "('a, 'b) run"
  assume a: "extends tr lg st"
  obtain res st' where r: "ghFetch api req st = (res, st')" by (cases "ghFetch api req st")
  have "extends tr lg st'"
    using a by (auto simp: extends_def ghFetch_calls [OF r] ghFetch_logged [OF r])
  then show "case ghFetch api req st of (Inl e, st') \<Rightarrow> extends tr lg st'
             | (Inr j, st') \<Rightarrow> extends tr lg st'"
    using r by (auto split: sum.splits)
qed

lemma grow_resolve: "valid (extends tr lg) (resolve a) (\<lambda>u. extends tr lg) E"
  by (rule valid_resolve)

lemma grow_throw: "valid (extends tr lg) (throw e) Q (extends tr lg)"
  by (rule valid_throw)

lemma grow_field: "valid (extends tr lg) (field get j) (\<lambda>v. extends tr lg) (extends tr lg)"
  by (rule valid_field)

lemmas grow_steps =
  valid_await valid_if valid_case_sum valid_case_prod
  valid_catch [where E' = "extends tr lg" for tr lg] valid_copyLoop
  grow_log grow_resolve grow_throw grow_field grow_ghFetch

lemma grow_copyBlob:
  "valid (extends tr lg) (copyBlob api src sToken dst dToken modeOf blob)
     (\<lambda>e. extends tr lg) (extends tr lg)"
  unfolding copyBlob_def by (rule grow_steps)+

lemma grow_validateSide:
  "valid (extends tr lg) (validateSide opening label api url token)
     (\<lambda>u. extends tr lg) (extends tr lg)"
  unfolding validateSide_def by (rule grow_steps)+

lemma grow_fetchSourceTree:
  "valid (extends tr lg) (fetchSourceTree api src sBranch sToken)
     (\<lambda>u. extends tr lg) (extends tr lg)"
  unfolding fetchSourceTree_def by (rule grow_steps)+

lemma grow_wipeDestination:
  "valid (extends tr lg) (wipeDestination api dst dBranch dToken)
     (\<lambda>u. extends tr lg) (extends tr lg)"
  unfolding wipeDestination_def by (rule grow_steps)+

lemma grow_copyServer:
  "valid (extends tr lg) (copyServer api src sToken dst dToken blobs)
     (\<lambda>u. extends tr lg) (extends tr lg)"
  unfolding copyServer_def by (rule grow_steps grow_copyBlob)+

lemma grow_commitDefault:
  "valid (extends tr lg) (commitDefault api dst dBranch dToken sourceName entries)
     (\<lambda>u. extends tr lg) (extends tr lg)"
  unfolding commitDefault_def by (rule grow_steps)+

lemma grow_copyBranch:
  "valid (extends tr lg) (copyBranch api src sToken dst dToken newCommitSha branch)
     (\<lambda>u. extends tr lg) (extends tr lg)"
  unfolding copyBranch_def by (rule grow_steps grow_copyBlob)+

lemma grow_replicateBranch:
  "valid (extends tr lg) (replicateBranch api src sToken dst dToken newCommitSha branch)
     (\<lambda>u. extends tr lg) E"
  unfolding replicateBranch_def
  by (rule valid_catch [where E' = "extends tr lg"] grow_copyBranch grow_log)+

lemma grow_replicateBranches:
  "valid (extends tr lg)
     (replicateBranches api src sToken dst dToken sBranch newCommitSha branches)
     (\<lambda>u. extends tr lg) E"
  by (induction branches) (auto intro!: valid_await grow_replicateBranch grow_resolve)

lemma grow_mirrorSecondary:
  "valid (extends tr lg)
     (mirrorSecondary api source sToken dest dToken sourceBranches newCommitSha)
     (\<lambda>u. extends tr lg) E"
  unfolding mirrorSecondary_def
  by (rule valid_if valid_await grow_log grow_replicateBranches grow_resolve)+

lemma grown:
  assumes "valid (extends (calls st) (logged st)) m Q (extends (calls st) (logged st))"
    "\<And>a. Q a = extends (calls st) (logged st)" "m st = (res, st')"
  shows "extends (calls st) (logged st) st'"
  using validD [OF assms(1) extends_refl assms(3)] assms(2) by (cases res) simp_all

subsection \<open>The secondary branches\<close>

lemma commit_for_Some:
  "commit_for dst dToken parent branch ev = Some c \<longleftrightarrow>
     (\<exists>t. ev = Call (CreateCommit (owner dst) (repo dst)
                  ([0xD83D, 0xDCE6] @ js '' Mirror branch: '' @ name branch) t [parent] dToken)
               (Inr (JSha c)))"
  unfolding commit_for_def
  by (cases ev) (auto split: request.splits sum.splits json.splits)

lemma points_iff:
  "points dst dToken branch c ev \<longleftrightarrow>
     (\<exists>j. ev = Call (CreateRef (owner dst) (repo dst) (js ''refs/heads/'' @ name branch) c
                        dToken) (Inr j))
     \<or> (\<exists>j. ev = Call (UpdateRef (owner dst) (repo dst) (name branch) c True dToken) (Inr j))"
  unfolding points_def
  by (cases ev) (auto split: request.splits sum.splits)

lemma committed_iff:
  "committed dst dToken parent branch evs \<longleftrightarrow>
     (\<exists>c t. Call (CreateCommit (owner dst) (repo dst)
                  ([0xD83D, 0xDCE6] @ js '' Mirror branch: '' @ name branch) t [parent] dToken)
               (Inr (JSha c)) \<in> set evs
          \<and> ((\<exists>j. Call (CreateRef (owner dst) (repo dst) (js ''refs/heads/'' @ name branch) c
                        dToken) (Inr j) \<in> set evs)
             \<or> (\<exists>j. Call (UpdateRef (owner dst) (repo dst) (name branch) c True dToken) (Inr j)
                      \<in> set evs)))"
  (is "?l \<longleftrightarrow> ?r")
proof
  assume ?l
  then obtain ev c where ev: "ev \<in> set evs" "commit_for dst dToken parent branch ev = Some c"
    and p: "list_ex (points dst dToken branch c) evs"
    by (auto simp: committed_def list_ex_iff split: option.splits)
  from p obtain ev' where ev': "ev' \<in> set evs" "points dst dToken branch c ev'"
    by (auto simp: list_ex_iff)
  from ev obtain t where "Call (CreateCommit (owner dst) (repo dst)
                  ([0xD83D, 0xDCE6] @ js '' Mirror branch: '' @ name branch) t [parent] dToken)
               (Inr (JSha c)) \<in> set evs"
    by (auto simp: commit_for_Some)
  moreover from ev' have "(\<exists>j. Call (CreateRef (owner dst) (repo dst) (js ''refs/heads/'' @ name branch) c
                        dToken) (Inr j) \<in> set evs)
             \<or> (\<exists>j. Call (UpdateRef (owner dst) (repo dst) (name branch) c True dToken) (Inr j)
                      \<in> set evs)"
    by (auto simp: points_iff)
  ultimately show ?r by blast
next
  assume ?r
  then obtain c t where
    a: "Call (CreateCommit (owner dst) (repo dst)
                  ([0xD83D, 0xDCE6] @ js '' Mirror branch: '' @ name branch) t [parent] dToken)
               (Inr (JSha c)) \<in> set evs"
    and b: "(\<exists>j. Call (CreateRef (owner dst) (repo dst) (js ''refs/heads/'' @ name branch) c
                        dToken) (Inr j) \<in> set evs)
             \<or> (\<exists>j. Call (UpdateRef (owner dst) (repo dst) (name branch) c True dToken) (Inr j)
                      \<in> set evs)"
    by blast
  from b obtain ev' where "ev' \<in> set evs" "points dst dToken branch c ev'"
    by (auto simp: points_iff)
  then have "list_ex (points dst dToken branch c) evs"
    by (auto simp: list_ex_iff)
  moreover have "commit_for dst dToken parent branch
     (Call (CreateCommit (owner dst) (repo dst)
                  ([0xD83D, 0xDCE6] @ js '' Mirror branch: '' @ name branch) t [parent] dToken)
               (Inr (JSha c))) = Some c"
    by (simp add: commit_for_Some)
  ultimately show ?l
    using a unfolding committed_def list_ex_iff by force
qed

lemma committed_mono: "committed dst dToken parent branch evs \<Longrightarrow>
  committed dst dToken parent branch (pre @ evs @ post)"
  unfolding committed_iff by (elim exE conjE disjE) (simp; blast)+

lemma silent_branch_loop:
  "silent (copyLoop W (copyBlob api src sToken dst dToken modeOf) (\<lambda>i. resolve ()) blobs i acc)"
  unfolding silent_def
proof
  fix st :: "('a, 'b) run"
  obtain r s where l: "copyLoop W (copyBlob api src sToken dst dToken modeOf) (\<lambda>i. resolve ())
                         blobs i acc st = (r, s)"
    by (cases "copyLoop W (copyBlob api src sToken dst dToken modeOf) (\<lambda>i. resolve ())
                 blobs i acc st")
  have "logged s = logged st"
    by (rule silent_copyLoop [OF l]) simp_all
  with l show "logged (snd (copyLoop W (copyBlob api src sToken dst dToken modeOf)
                              (\<lambda>i. resolve ()) blobs i acc st)) = logged st"
    by simp
qed

lemma quiet:
  "silent m \<Longrightarrow> valid (\<lambda>st. logged st = lg) m (\<lambda>a st. logged st = lg) (\<lambda>st. logged st = lg)"
  by (auto simp: valid_def split: prod.splits sum.splits dest: silentD)

lemma loud: "valid (\<lambda>st. logged st = lg) (log x) (\<lambda>u st. logged st = lg @ [x]) E"
  by (simp add: valid_def log_def)

lemma copyBranch_logs':
  "valid (\<lambda>st. logged st = lg) (copyBranch api src sToken dst dToken parent branch)
     (\<lambda>u st. logged st = lg @ [branch_copied (name branch)]) (\<lambda>st. logged st = lg)"
  unfolding copyBranch_def
  by (rule valid_await loud
      | rule quiet, intro silent_catch silent_ghFetch silent_field silent_branch_loop)+

lemma copyBranch_logs:
  assumes "copyBranch api src sToken dst dToken parent branch st = (res, st')"
  shows "logged st' = logged st @ (case res of Inl e \<Rightarrow> [] | Inr u \<Rightarrow> [branch_copied (name branch)])"
  using validD [OF copyBranch_logs' refl assms] by (cases res) simp_all

lemma valid_any_E: "valid P m Q E \<Longrightarrow> valid P m Q (\<lambda>st. True)"
  by (auto simp: valid_def split: prod.splits sum.splits)

lemma commit_made:
  "valid (extends tr lg) (ghFetch api (CreateCommit ow rp m t ps tok))
     (\<lambda>j st. \<forall>c. sha_of j = Some c \<longrightarrow>
        (\<exists>evs. calls st = tr @ evs
           \<and> Call (CreateCommit ow rp m t ps tok) (Inr (JSha c)) \<in> set evs))
     (\<lambda>st. True)"
  unfolding valid_def
proof (intro allI impI)
  fix st :: "('a, 'b) run"
  assume "extends tr lg st"
  then obtain evs where e: "calls st = tr @ evs" by (auto simp: extends_def)
  obtain res st' where r: "ghFetch api (CreateCommit ow rp m t ps tok) st = (res, st')"
    by (cases "ghFetch api (CreateCommit ow rp m t ps tok) st")
  have "\<forall>j c. res = Inr j \<longrightarrow> sha_of j = Some c \<longrightarrow>
         (\<exists>evs. calls st' = tr @ evs
           \<and> Call (CreateCommit ow rp m t ps tok) (Inr (JSha c)) \<in> set evs)"
    using e by (auto simp: ghFetch_calls [OF r] sha_of_def split: json.splits)
  then show "case ghFetch api (CreateCommit ow rp m t ps tok) st of
      (Inl e, st') \<Rightarrow> True
    | (Inr j, st') \<Rightarrow> \<forall>c. sha_of j = Some c \<longrightarrow>
        (\<exists>evs. calls st' = tr @ evs
           \<and> Call (CreateCommit ow rp m t ps tok) (Inr (JSha c)) \<in> set evs)"
    using r by (auto split: sum.splits)
qed

lemma ref_pointed:
  assumes "\<And>j. ev j = Call req (Inr j)"
  shows "valid (\<lambda>st. \<exists>evs. calls st = tr @ evs \<and> made \<in> set evs) (ghFetch api req)
     (\<lambda>j st. \<exists>evs. calls st = tr @ evs \<and> made \<in> set evs \<and> (\<exists>j. ev j \<in> set evs))
     (\<lambda>st. \<exists>evs. calls st = tr @ evs \<and> made \<in> set evs)"
  unfolding valid_def
proof (intro allI impI)
  fix st :: "('a, 'b) run"
  assume "\<exists>evs. calls st = tr @ evs \<and> made \<in> set evs"
  then obtain evs where e: "calls st = tr @ evs" "made \<in> set evs" by auto
  obtain res st' where r: "ghFetch api req st = (res, st')" by (cases "ghFetch api req st")
  have c: "calls st' = tr @ (evs @ [Call req res])"
    using e by (simp add: ghFetch_calls [OF r])
  show "case ghFetch api req st of
      (Inl e, st') \<Rightarrow> \<exists>evs. calls st' = tr @ evs \<and> made \<in> set evs
    | (Inr j, st') \<Rightarrow> \<exists>evs. calls st' = tr @ evs \<and> made \<in> set evs \<and> (\<exists>j. ev j \<in> set evs)"
  proof (cases res)
    case (Inl x)
    have "made \<in> set (evs @ [Call req res])" using e by simp
    with c r Inl show ?thesis by auto
  next
    case (Inr j)
    have "made \<in> set (evs @ [Call req res]) \<and> ev j \<in> set (evs @ [Call req res])"
      using e Inr assms by simp
    with c r Inr show ?thesis by auto
  qed
qed

lemma copyBranch_committed':
  "valid (extends tr lg) (copyBranch api src sToken dst dToken parent branch)
     (\<lambda>u st. \<exists>evs. calls st = tr @ evs \<and> committed dst dToken parent branch evs)
     (\<lambda>st. True)"
  unfolding copyBranch_def
proof (rule valid_await [OF valid_any_E [OF grow_ghFetch]],
    rule valid_await [OF valid_any_E [OF grow_field]],
    rule valid_await [OF valid_any_E [OF valid_copyLoop [OF grow_copyBlob grow_resolve]]],
    rule valid_await [OF valid_any_E [OF grow_ghFetch]],
    rule valid_await [OF valid_any_E [OF grow_field]],
    rule valid_await [OF commit_made])
  fix branchTree entries branchTreeEntries bTree treeSha bCommit
  let ?cc = "CreateCommit (owner dst) (repo dst)
               ([0xD83D, 0xDCE6] @ js '' Mirror branch: '' @ name branch) treeSha [parent] dToken"
  let ?made = "\<lambda>c st. \<exists>evs. calls st = tr @ evs \<and> Call ?cc (Inr (JSha c)) \<in> set evs"
  let ?done = "\<lambda>st. \<exists>evs. calls st = tr @ evs \<and> committed dst dToken parent branch evs"
  have pointed: "\<And>c x. valid (?made c)
      (catch
         (ghFetch api (CreateRef (owner dst) (repo dst) (js ''refs/heads/'' @ name branch) c
            dToken))
         (\<lambda>e. ghFetch api (UpdateRef (owner dst) (repo dst) (name branch) c True dToken)))
      (\<lambda>r. ?done) (\<lambda>st. True)"
  proof -
    fix c
    have a: "valid (?made c)
      (ghFetch api (CreateRef (owner dst) (repo dst) (js ''refs/heads/'' @ name branch) c dToken))
      (\<lambda>r. ?done) (?made c)"
      by (rule valid_def [THEN iffD2])
         (use ref_pointed [of "\<lambda>j. Call (CreateRef (owner dst) (repo dst)
                 (js ''refs/heads/'' @ name branch) c dToken) (Inr j)" _ tr
                 "Call ?cc (Inr (JSha c))" api, OF refl]
          in \<open>fastforce simp: valid_def committed_iff split: prod.splits sum.splits\<close>)
    have b: "\<And>e. valid (?made c)
      (ghFetch api (UpdateRef (owner dst) (repo dst) (name branch) c True dToken))
      (\<lambda>r. ?done) (\<lambda>st. True)"
      by (rule valid_def [THEN iffD2])
         (use ref_pointed [of "\<lambda>j. Call (UpdateRef (owner dst) (repo dst) (name branch) c True
                 dToken) (Inr j)" _ tr "Call ?cc (Inr (JSha c))" api, OF refl]
          in \<open>fastforce simp: valid_def committed_iff split: prod.splits sum.splits\<close>)
    show "valid (?made c)
      (catch
         (ghFetch api (CreateRef (owner dst) (repo dst) (js ''refs/heads/'' @ name branch) c
            dToken))
         (\<lambda>e. ghFetch api (UpdateRef (owner dst) (repo dst) (name branch) c True dToken)))
      (\<lambda>r. ?done) (\<lambda>st. True)"
      by (rule valid_catch [OF a b])
  qed
  show "valid (\<lambda>st. \<forall>c. sha_of bCommit = Some c \<longrightarrow> ?made c st)
     (await (field sha_of bCommit) (\<lambda>commitSha.
      await (catch
         (ghFetch api (CreateRef (owner dst) (repo dst) (js ''refs/heads/'' @ name branch)
            commitSha dToken))
         (\<lambda>e. ghFetch api (UpdateRef (owner dst) (repo dst) (name branch) commitSha True
            dToken)))
       (\<lambda>r. log (branch_copied (name branch)))))
     (\<lambda>u. ?done) (\<lambda>st. True)"
  proof (rule valid_await [where Q = "?made"])
    show "valid (\<lambda>st. \<forall>c. sha_of bCommit = Some c \<longrightarrow> ?made c st) (field sha_of bCommit)
            ?made (\<lambda>st. True)"
      by (rule valid_field) simp_all
  next
    fix c
    show "valid (?made c)
      (await (catch
         (ghFetch api (CreateRef (owner dst) (repo dst) (js ''refs/heads/'' @ name branch) c
            dToken))
         (\<lambda>e. ghFetch api (UpdateRef (owner dst) (repo dst) (name branch) c True dToken)))
       (\<lambda>r. log (branch_copied (name branch))))
      (\<lambda>u. ?done) (\<lambda>st. True)"
      by (rule valid_await [OF pointed]) (simp add: valid_def log_def)
  qed
qed

lemma copyBranch_committed:
  assumes "copyBranch api src sToken dst dToken parent branch st = (Inr u, st')"
  shows "\<exists>evs. calls st' = calls st @ evs \<and> committed dst dToken parent branch evs"
  using validD [OF copyBranch_committed' extends_refl assms] by simp

lemma replicateBranch_line:
  assumes "replicateBranch api src sToken dst dToken parent branch st = (res, st')"
  shows "res = Inr () \<and>
     (\<exists>l evs. logged st' = logged st @ [l] \<and> calls st' = calls st @ evs
        \<and> ((l = branch_copied (name branch) \<and> committed dst dToken parent branch evs)
           \<or> (\<exists>e. l = branch_failed (name branch) e)))"
proof -
  obtain r s where c: "copyBranch api src sToken dst dToken parent branch st = (r, s)"
    by (cases "copyBranch api src sToken dst dToken parent branch st")
  note lg = copyBranch_logs [OF c]
  show ?thesis
  proof (cases r)
    case (Inl e)
    have "extends (calls st) (logged st) s"
      by (rule grown [OF grow_copyBranch _ c]) simp
    then obtain evs where "calls s = calls st @ evs" by (auto simp: extends_def)
    with assms c Inl lg show ?thesis
      by (auto simp: replicateBranch_def catch_def log_def)
  next
    case (Inr u)
    with copyBranch_committed c obtain evs where
      "calls s = calls st @ evs" "committed dst dToken parent branch evs"
      by blast
    with assms c Inr lg show ?thesis
      by (auto simp: replicateBranch_def catch_def)
  qed
qed

lemma replicateBranches_lines:
  "replicateBranches api src sToken dst dToken sBranch parent branches st = (res, st') \<Longrightarrow>
   res = Inr () \<and>
   (\<exists>lines evs. logged st' = logged st @ lines \<and> calls st' = calls st @ evs
      \<and> list_all2 (\<lambda>b l. (l = branch_copied (name b) \<and> committed dst dToken parent b evs)
                          \<or> (\<exists>e. l = branch_failed (name b) e))
           (filter (\<lambda>b. name b \<noteq> sBranch) branches) lines)"
proof (induction branches arbitrary: st)
  case Nil
  then show ?case by (simp add: resolve_def)
next
  case (Cons b branches)
  show ?case
  proof (cases "name b = sBranch")
    case True
    with Cons show ?thesis by simp
  next
    case False
    obtain r1 s1 where one: "replicateBranch api src sToken dst dToken parent b st = (r1, s1)"
      by (cases "replicateBranch api src sToken dst dToken parent b st")
    from replicateBranch_line [OF one] obtain l e1 where
      r1: "r1 = Inr ()" and l1: "logged s1 = logged st @ [l]" and c1: "calls s1 = calls st @ e1"
      and k1: "(l = branch_copied (name b) \<and> committed dst dToken parent b e1)
               \<or> (\<exists>e. l = branch_failed (name b) e)"
      by blast
    from Cons.prems False one r1
    have rest: "replicateBranches api src sToken dst dToken sBranch parent branches s1 = (res, st')"
      by (simp add: await_def)
    from Cons.IH [OF rest] obtain lines e2 where
      res: "res = Inr ()" and l2: "logged st' = logged s1 @ lines"
      and c2: "calls st' = calls s1 @ e2"
      and k2: "list_all2 (\<lambda>b l. (l = branch_copied (name b) \<and> committed dst dToken parent b e2)
                          \<or> (\<exists>e. l = branch_failed (name b) e))
           (filter (\<lambda>b. name b \<noteq> sBranch) branches) lines"
      by blast
    have k1': "(l = branch_copied (name b) \<and> committed dst dToken parent b (e1 @ e2))
               \<or> (\<exists>e. l = branch_failed (name b) e)"
      using k1 committed_mono [of dst dToken parent b e1 "[]" e2] by auto
    have k2': "list_all2 (\<lambda>b l. (l = branch_copied (name b)
                                    \<and> committed dst dToken parent b (e1 @ e2))
                          \<or> (\<exists>e. l = branch_failed (name b) e))
           (filter (\<lambda>b. name b \<noteq> sBranch) branches) lines"
      by (rule list_all2_mono [OF k2])
         (use committed_mono [of dst dToken parent _ e2 e1 "[]"] in auto)
    have "logged st' = logged st @ (l # lines)" "calls st' = calls st @ (e1 @ e2)"
      using l1 l2 c1 c2 by simp_all
    moreover have "list_all2 (\<lambda>b l. (l = branch_copied (name b)
                                    \<and> committed dst dToken parent b (e1 @ e2))
                          \<or> (\<exists>e. l = branch_failed (name b) e))
           (filter (\<lambda>b. name b \<noteq> sBranch) (b # branches)) (l # lines)"
      using False k1' k2' by simp
    ultimately show ?thesis using res by blast
  qed
qed

section \<open>The server function as a whole\<close>

subsection \<open>The run of the server function, stage by stage\<close>

lemma mirrorRepo_stages:
  assumes "validateBoth api sUrl dUrl sToken dToken (start w) = (Inr (source, dest), st1)"
    and "fetchBranches fuel api (fst source) sToken 1 [] st1 = Some (Inr sourceBranches, st2)"
  shows "mirrorRepo fuel api sUrl dUrl sToken dToken w =
     Some (await (mirrorDefault api source sToken dest dToken sourceBranches)
             (\<lambda>(blobs, newCommitSha).
                await (mirrorSecondary api source sToken dest dToken sourceBranches newCommitSha)
                  (\<lambda>u. finish blobs sourceBranches)) st2)"
  using assms by (simp add: mirrorRepo_def)

lemma mirrorRepo_Inr:
  assumes "mirrorRepo fuel api sUrl dUrl sToken dToken w = Some (Inr l, st)"
  obtains source dest st1 sourceBranches st2 blobs newCommitSha st3 st4 where
    "validateBoth api sUrl dUrl sToken dToken (start w) = (Inr (source, dest), st1)"
    "fetchBranches fuel api (fst source) sToken 1 [] st1 = Some (Inr sourceBranches, st2)"
    "mirrorDefault api source sToken dest dToken sourceBranches st2
       = (Inr (blobs, newCommitSha), st3)"
    "mirrorSecondary api source sToken dest dToken sourceBranches newCommitSha st3
       = (Inr (), st4)"
    "finish blobs sourceBranches st4 = (Inr l, st)"
proof -
  obtain r1 st1 where v: "validateBoth api sUrl dUrl sToken dToken (start w) = (r1, st1)"
    by (cases "validateBoth api sUrl dUrl sToken dToken (start w)")
  from assms v obtain source dest where r1: "r1 = Inr (source, dest)"
    by (cases r1) (auto simp: mirrorRepo_def)
  from assms v r1 obtain r2 st2 where
    f: "fetchBranches fuel api (fst source) sToken 1 [] st1 = Some (r2, st2)"
    by (auto simp: mirrorRepo_def split: option.splits)
  from assms v r1 f obtain sourceBranches where r2: "r2 = Inr sourceBranches"
    by (cases r2) (auto simp: mirrorRepo_def)
  have "await (mirrorDefault api source sToken dest dToken sourceBranches)
             (\<lambda>(blobs, newCommitSha).
                await (mirrorSecondary api source sToken dest dToken sourceBranches newCommitSha)
                  (\<lambda>u. finish blobs sourceBranches)) st2 = (Inr l, st)"
    using assms mirrorRepo_stages [OF v [unfolded r1] f [unfolded r2]] by simp
  then obtain bc st3 where
    d: "mirrorDefault api source sToken dest dToken sourceBranches st2 = (Inr bc, st3)"
    and rest: "(case bc of (blobs, newCommitSha) \<Rightarrow>
                await (mirrorSecondary api source sToken dest dToken sourceBranches newCommitSha)
                  (\<lambda>u. finish blobs sourceBranches)) st3 = (Inr l, st)"
    by (rule awaitE) auto
  obtain blobs newCommitSha where bc: "bc = (blobs, newCommitSha)" by (cases bc)
  from rest bc obtain u st4 where
    s: "mirrorSecondary api source sToken dest dToken sourceBranches newCommitSha st3
          = (Inr u, st4)"
    and fin: "finish blobs sourceBranches st4 = (Inr l, st)"
    by (auto elim!: awaitE)
  show ?thesis
    using that [OF v [unfolded r1] f [unfolded r2] d [unfolded bc] _ fin] s by simp
qed

lemma finish_logs:
  "finish blobs sourceBranches st =
     (Inr (logged st @ [concluded, summary (length blobs) (length sourceBranches)]),
      st\<lparr>logged := logged st @ [concluded, summary (length blobs) (length sourceBranches)]\<rparr>)"
  by (simp add: finish_def await_def log_def concluded_def)

lemma mirrorSecondary_lines:
  assumes "mirrorSecondary api source sToken dest dToken sourceBranches parent st = (res, st')"
  shows "res = Inr () \<and>
     (\<exists>lines evs. calls st' = calls st @ evs
        \<and> logged st' = logged st @ (if 1 < length sourceBranches then copying_branches # lines
                                      else [])
        \<and> (1 < length sourceBranches \<longrightarrow>
             list_all2 (\<lambda>b l. (l = branch_copied (name b)
                                   \<and> committed (fst dest) dToken parent b evs)
                               \<or> (\<exists>e. l = branch_failed (name b) e))
               (filter (\<lambda>b. name b \<noteq> default_branch (snd source)) sourceBranches) lines))"
proof (cases "1 < length sourceBranches")
  case False
  with assms show ?thesis by (simp add: mirrorSecondary_def resolve_def)
next
  case True
  let ?s = "st\<lparr>logged := logged st @ [copying_branches]\<rparr>"
  from assms True
  have "replicateBranches api (fst source) sToken (fst dest) dToken (default_branch (snd source))
          parent sourceBranches ?s = (res, st')"
    by (simp add: mirrorSecondary_def await_def log_def copying_branches_def)
  from replicateBranches_lines [OF this] True show ?thesis
    by auto
qed

lemma fetchSourceTree_listing:
  assumes "fetchSourceTree api src sBranch sToken st = (Inr blobs, st')"
  shows "\<exists>entries. Call (GetTree (owner src) (repo src) sBranch sToken) (Inr (JTree entries))
                      \<in> set (calls st')
           \<and> blobs = filter is_blob entries"
  using assms unfolding fetchSourceTree_def
  by (fastforce elim!: awaitE simp: log_def field_def resolve_def throw_def tree_of_def
      split: option.splits json.splits dest!: ghFetch_calls)

lemma mirrorDefault_listing:
  assumes "mirrorDefault api source sToken dest dToken sourceBranches st
             = (Inr (blobs, newCommitSha), st')"
  shows "\<exists>entries. Call (GetTree (owner (fst source)) (repo (fst source))
                            (default_branch (snd source)) sToken) (Inr (JTree entries))
                      \<in> set (calls st')
           \<and> blobs = filter is_blob entries"
proof -
  obtain src sourceData dst destData where sd: "source = (src, sourceData)" "dest = (dst, destData)"
    by (cases source, cases dest) auto
  let ?rest = "\<lambda>blobs. await (wipeDestination api dst (default_branch destData) dToken) (\<lambda>u.
       await (copyServer api src sToken dst dToken blobs) (\<lambda>newTreeEntries.
       await (commitDefault api dst (default_branch destData) dToken (full_name sourceData)
                newTreeEntries) (\<lambda>newCommitSha.
       resolve (blobs, newCommitSha))))"
  from assms sd
  have "await (log (found_branches (length sourceBranches))) (\<lambda>u.
          await (fetchSourceTree api src (default_branch sourceData) sToken) ?rest) st
        = (Inr (blobs, newCommitSha), st')"
    by (simp add: mirrorDefault_def)
  then obtain s0 where
    "await (fetchSourceTree api src (default_branch sourceData) sToken) ?rest s0
        = (Inr (blobs, newCommitSha), st')"
    by (rule awaitE) auto
  then obtain blobs' s1 where
    f: "fetchSourceTree api src (default_branch sourceData) sToken s0 = (Inr blobs', s1)"
    and rest: "?rest blobs' s1 = (Inr (blobs, newCommitSha), st')"
    by (rule awaitE) auto
  from rest have same: "blobs' = blobs"
    by (auto elim!: awaitE simp: resolve_def)
  have "valid (extends (calls s1) (logged s1)) (?rest blobs')
      (\<lambda>u. extends (calls s1) (logged s1)) (extends (calls s1) (logged s1))"
    by (rule valid_await grow_wipeDestination grow_copyServer grow_commitDefault grow_resolve)+
  from grown [OF this _ rest] obtain evs where "calls st' = calls s1 @ evs"
    by (auto simp: extends_def)
  with fetchSourceTree_listing [OF f] sd same show ?thesis by auto
qed


text \<open>
  C4 (amended). The last line of the log of a successful run is the summary. It reports
  the number of blobs in the tree of the default branch of the source, and the number of
  branches of the source.
\<close>

theorem summary_counts:
  assumes "mirrorRepo fuel api sUrl dUrl sToken dToken w = Some (Inr l, st)"
  shows "\<exists>source dest st1 sourceBranches st2 entries.
     validateBoth api sUrl dUrl sToken dToken (start w) = (Inr (source, dest), st1)
     \<and> fetchBranches fuel api (fst source) sToken 1 [] st1 = Some (Inr sourceBranches, st2)
     \<and> Call (GetTree (owner (fst source)) (repo (fst source)) (default_branch (snd source))
               sToken) (Inr (JTree entries)) \<in> set (calls st)
     \<and> l = logged st \<and> l \<noteq> []
     \<and> last l = summary (length (filter is_blob entries)) (length sourceBranches)"
proof -
  from assms obtain source dest st1 sourceBranches st2 blobs newCommitSha st3 st4 where
    v: "validateBoth api sUrl dUrl sToken dToken (start w) = (Inr (source, dest), st1)"
    and f: "fetchBranches fuel api (fst source) sToken 1 [] st1 = Some (Inr sourceBranches, st2)"
    and d: "mirrorDefault api source sToken dest dToken sourceBranches st2
       = (Inr (blobs, newCommitSha), st3)"
    and s: "mirrorSecondary api source sToken dest dToken sourceBranches newCommitSha st3
       = (Inr (), st4)"
    and fin: "finish blobs sourceBranches st4 = (Inr l, st)"
    by (rule mirrorRepo_Inr)
  from mirrorDefault_listing [OF d] obtain entries where
    e: "Call (GetTree (owner (fst source)) (repo (fst source)) (default_branch (snd source))
               sToken) (Inr (JTree entries)) \<in> set (calls st3)"
    and b: "blobs = filter is_blob entries"
    by blast
  from mirrorSecondary_lines [OF s] obtain evs where c4: "calls st4 = calls st3 @ evs"
    by blast
  from fin have l: "l = logged st4 @ [concluded, summary (length blobs) (length sourceBranches)]"
    and st: "st = st4\<lparr>logged := logged st4
                @ [concluded, summary (length blobs) (length sourceBranches)]\<rparr>"
    by (auto simp: finish_logs)
  have "Call (GetTree (owner (fst source)) (repo (fst source)) (default_branch (snd source))
               sToken) (Inr (JTree entries)) \<in> set (calls st)"
    using e c4 st by simp
  moreover have "l = logged st" "l \<noteq> []"
    "last l = summary (length (filter is_blob entries)) (length sourceBranches)"
    using l st b by simp_all
  ultimately show ?thesis
    using v f by blast
qed

section \<open>Runs on the sample remotes\<close>

lemma some_pair: "map_option fst x = Some r \<Longrightarrow> x = Some (r, snd (the x))"
  by (cases x) auto

lemma succeeded_run: "succeeded r \<Longrightarrow> r = Some (Inr (logs_of r), snd (the r))"
  by (auto simp: succeeded_def logs_of_def split: option.splits sum.splits)

lemmas exec' = exec numeral_2_eq_2 demo_repo_def four_branches_def feat_tree_fails_def
  succeeded_def

lemma reference_logs:
  "logs_of (reference_run priv) =
     [[0xD83D, 0xDD0D] @ js '' Validando reposit'' @ [0xF3] @ js ''rio de origem...'',
      check_mark @ js '' Origem: '' @ (js ''a'' @ js ''/'' @ js ''src'') @ js '' (branch: ''
        @ js ''main'' @ js '', '' @ visibility (demo_repo priv demo_src) @ js '')'',
      [0xD83D, 0xDD0D] @ js '' Validando reposit'' @ [0xF3] @ js ''rio de destino...'',
      check_mark @ js '' Destino: '' @ (js ''b'' @ js ''/'' @ js ''dst'') @ js '' (branch: ''
        @ js ''main'' @ js '', '' @ visibility (demo_repo priv demo_dst) @ js '')'',
      [0xD83D, 0xDCCB] @ js '' Obtendo branches da origem...'',
      found_branches 2,
      [0xD83D, 0xDCC2] @ js '' Obtendo '' @ [0xE1] @ js ''rvore de arquivos da origem...'',
      found_files 2,
      [0xD83D, 0xDDD1, 0xFE0F] @ js '' Limpando reposit'' @ [0xF3] @ js ''rio de destino...'',
      check_mark @ js '' Destino limpo'',
      [0xD83D, 0xDCE6] @ js '' Copiando arquivos...'',
      copied_server 2 2,
      [0xD83C, 0xDF33] @ js '' Criando '' @ [0xE1] @ js ''rvore no destino...'',
      copying_branches,
      branch_copied (js ''dev''),
      concluded,
      summary 2 2]"
  by (simp add: exec' copying_branches_def concluded_def)

lemma reference_kinds:
  "map kind (calls_of (reference_run priv)) =
     [KGetRepo, KGetRepo, KListBranches, KGetTree,
      KGetRef, KCreateTree, KCreateCommit, KUpdateRef,
      KGetBlob, KCreateBlob, KGetBlob, KCreateBlob,
      KGetRef, KCreateTree, KCreateCommit, KUpdateRef,
      KGetTree, KGetBlob, KCreateBlob, KCreateTree, KCreateCommit, KCreateRef]"
  by (simp add: exec')

lemma reference_succeeded: "succeeded (reference_run priv)"
  by (simp add: exec')

text \<open>
  C4, as stated, fails: in the reference scenario three blobs are created at the
  destination, two for \<^verbatim>\<open>main\<close> and one for \<^verbatim>\<open>dev\<close>, and the summary reports two
  files and two branches.
\<close>

theorem summary_omits_secondary_blobs:
  "last (logs_of (reference_run False)) = summary 2 2
   \<and> summary 2 2 \<noteq> summary 3 2
   \<and> count_list (map kind (calls_of (reference_run False))) KCreateBlob = 3"
proof -
  have "show_nat 2 \<noteq> show_nat 3"
    by (simp add: show_nat.simps digit_def)
  then have "summary 2 2 \<noteq> summary 3 2"
    by (simp add: summary_def)
  then show ?thesis
    by (simp add: reference_logs reference_kinds)
qed

theorem summary_counts_witness:
  "\<exists>entries (sourceBranches :: branch_json list).
     last (logs_of (reference_run False))
       = summary (length (filter is_blob entries)) (length sourceBranches)"
proof -
  have "mirrorRepo 2 (fixture False main_dev never)
          (js ''https://github.com/a/src'') (js ''https://github.com/b/dst'')
          (js ''ts'') (js ''td'') ()
        = Some (Inr (logs_of (reference_run False)), snd (the (reference_run False)))"
    using succeeded_run [OF reference_succeeded [of False]] by (simp add: reference_run_def)
  from summary_counts [OF this] show ?thesis by blast
qed






section \<open>Runs that abort\<close>

subsection \<open>A run that aborts\<close>

lemma first_log:
  "valid (\<lambda>s. s = st) (log x) (\<lambda>u. extends (calls st) (logged st @ [x])) E"
  by (simp add: valid_def log_def extends_def)

lemma validateBoth_opening:
  "valid (\<lambda>s. s = st) (validateBoth api sUrl dUrl sToken dToken)
     (\<lambda>u. extends (calls st) (logged st @ [first_entry]))
     (extends (calls st) (logged st @ [first_entry]))"
  unfolding validateBoth_def validateSide_def first_entry_def
  by (rule valid_await [OF valid_await [OF first_log]]) (rule grow_steps)+

lemma validateBoth_logged:
  assumes "validateBoth api sUrl dUrl sToken dToken st = (r, st')"
  shows "logged st' \<noteq> []"
proof -
  have "extends (calls st) (logged st @ [first_entry]) st'"
    using validD [OF validateBoth_opening refl assms] by (cases r) simp_all
  then show ?thesis by (auto simp: extends_def)
qed

lemma fetchBranches_logged:
  "fetchBranches fuel api src token page acc st = Some (res, st') \<Longrightarrow> logged st' = logged st"
proof (induction fuel arbitrary: page acc st)
  case 0
  then show ?case by simp
next
  case (Suc fuel)
  obtain r s1 where f: "ghFetch api (ListBranches (owner src) (repo src) page token) st = (r, s1)"
    by (cases "ghFetch api (ListBranches (owner src) (repo src) page token) st")
  note l = ghFetch_logged [OF f]
  show ?case
  proof (cases r)
    case (Inl e)
    with Suc.prems f l show ?thesis by auto
  next
    case (Inr j)
    show ?thesis
    proof (cases j)
      case (JBranches branches)
      show ?thesis
      proof (cases "length branches = 0 \<or> length branches < 100")
        case True
        with Suc.prems f Inr JBranches l show ?thesis
          by (auto split: if_splits)
      next
        case False
        with Suc.prems f Inr JBranches
        have "fetchBranches fuel api src token (page + 1) (acc @ branches) s1 = Some (res, st')"
          by simp
        from Suc.IH [OF this] l show ?thesis by simp
      qed
    qed (use Suc.prems f Inr l in auto)
  qed
qed

lemma grow_mirrorDefault:
  "valid (extends tr lg) (mirrorDefault api source sToken dest dToken sourceBranches)
     (\<lambda>u. extends tr lg) (extends tr lg)"
  unfolding mirrorDefault_def
  by (rule grow_steps grow_fetchSourceTree grow_wipeDestination grow_copyServer
        grow_commitDefault)+

lemma grow_finish:
  "valid (extends tr lg) (finish blobs sourceBranches) (\<lambda>u. extends tr lg) E"
  unfolding finish_def
  by (rule valid_await grow_log)+ (simp add: valid_def)

lemma mirrorRepo_logged:
  assumes "mirrorRepo fuel api sUrl dUrl sToken dToken w = Some (res, st)"
  shows "logged st \<noteq> []"
proof -
  obtain r1 s1 where v: "validateBoth api sUrl dUrl sToken dToken (start w) = (r1, s1)"
    by (cases "validateBoth api sUrl dUrl sToken dToken (start w)")
  note l1 = validateBoth_logged [OF v]
  show ?thesis
  proof (cases r1)
    case (Inl e)
    with assms v l1 show ?thesis by (auto simp: mirrorRepo_def)
  next
    case (Inr sd)
    obtain source dest where sd: "sd = (source, dest)" by (cases sd)
    from assms v Inr sd obtain r2 s2 where
      f: "fetchBranches fuel api (fst source) sToken 1 [] s1 = Some (r2, s2)"
      by (auto simp: mirrorRepo_def split: option.splits)
    have l2: "logged s2 \<noteq> []"
      using fetchBranches_logged [OF f] l1 by simp
    show ?thesis
    proof (cases r2)
      case (Inl e)
      with assms v \<open>r1 = Inr sd\<close> sd f l2 show ?thesis by (auto simp: mirrorRepo_def)
    next
      case (Inr sourceBranches)
      have t: "valid (extends (calls s2) (logged s2))
              (await (mirrorDefault api source sToken dest dToken sourceBranches)
                 (\<lambda>(blobs, newCommitSha).
                    await (mirrorSecondary api source sToken dest dToken sourceBranches
                             newCommitSha) (\<lambda>u. finish blobs sourceBranches)))
              (\<lambda>l. extends (calls s2) (logged s2)) (extends (calls s2) (logged s2))"
        by (rule valid_await valid_case_prod grow_mirrorDefault grow_mirrorSecondary
              grow_finish)+
      have run: "await (mirrorDefault api source sToken dest dToken sourceBranches)
                 (\<lambda>(blobs, newCommitSha).
                    await (mirrorSecondary api source sToken dest dToken sourceBranches
                             newCommitSha) (\<lambda>u. finish blobs sourceBranches)) s2 = (res, st)"
        using assms f by (simp add: mirrorRepo_def v \<open>r1 = Inr sd\<close> sd Inr)
      from grown [OF t _ run] l2 show ?thesis
        by (auto simp: extends_def)
    qed
  qed
qed

lemma or_else_nonempty: "d \<noteq> [] \<Longrightarrow> or_else x d \<noteq> []"
  by (simp add: or_else_def split: option.splits)

lemma handleClone_rejected:
  assumes "invoke \<lparr>sourceUrl = Some sUrl, destUrl = Some dUrl, sourceToken = Some sToken,
                   destToken = Some dToken\<rparr> = InvokeError e
           \<or> invoke \<lparr>sourceUrl = Some sUrl, destUrl = Some dUrl, sourceToken = Some sToken,
                   destToken = Some dToken\<rparr>
               = InvokeData \<lparr>success = Some False, logs = None, error = Some m\<rparr>"
  shows "\<exists>e'. e' \<noteq> [] \<and> handleClone invoke sUrl dUrl sToken dToken
           = [(js ''Iniciando mirror via servidor...'', Info), (e', Error)]"
  using assms
  by (auto simp: handleClone_def mirrorRepo_client_def Let_def js_empty_iff
      intro!: or_else_nonempty)

text \<open>
  C2 (amended). When the server function aborts with an error on a request that has its
  four fields, it has logged at least one line by then, and the response is status 500
  with a body that holds \<^verbatim>\<open>success: false\<close> and the error message, and no log line.
  Whether the client library reports an error of its own or hands that body over, the
  sink receives two entries: the opening line of the browser side, and one entry of
  severity error with a non-empty message.
\<close>

theorem abort_drops_server_log:
  assumes "mirrorRepo fuel api sUrl dUrl sToken dToken w = Some (Inl m, st)"
    and "sUrl \<noteq> []" "dUrl \<noteq> []" "sToken \<noteq> []" "dToken \<noteq> []"
  shows "logged st \<noteq> []
     \<and> serve fuel api
         \<lparr>req_method = js ''POST'',
          req_json = Inr \<lparr>sourceUrl = Some sUrl, destUrl = Some dUrl,
                          sourceToken = Some sToken, destToken = Some dToken\<rparr>\<rparr> w
       = Some \<lparr>resp_status = 500,
               resp_body = Some \<lparr>success = Some False, logs = None, error = Some m\<rparr>\<rparr>
     \<and> (\<forall>invoke e.
          invoke \<lparr>sourceUrl = Some sUrl, destUrl = Some dUrl, sourceToken = Some sToken,
                  destToken = Some dToken\<rparr> = InvokeError e
          \<or> invoke \<lparr>sourceUrl = Some sUrl, destUrl = Some dUrl, sourceToken = Some sToken,
                  destToken = Some dToken\<rparr>
              = InvokeData \<lparr>success = Some False, logs = None, error = Some m\<rparr>
          \<longrightarrow> (\<exists>e'. e' \<noteq> [] \<and> handleClone invoke sUrl dUrl sToken dToken
                 = [(js ''Iniciando mirror via servidor...'', Info), (e', Error)]))"
proof (intro conjI allI impI)
  show "logged st \<noteq> []"
    by (rule mirrorRepo_logged [OF assms(1)])
  show "serve fuel api
         \<lparr>req_method = js ''POST'',
          req_json = Inr \<lparr>sourceUrl = Some sUrl, destUrl = Some dUrl,
                          sourceToken = Some sToken, destToken = Some dToken\<rparr>\<rparr> w
       = Some \<lparr>resp_status = 500,
               resp_body = Some \<lparr>success = Some False, logs = None, error = Some m\<rparr>\<rparr>"
    using assms by (simp add: serve_def falsy_def failure_def js_eq_iff)
next
  fix invoke e
  assume "invoke \<lparr>sourceUrl = Some sUrl, destUrl = Some dUrl, sourceToken = Some sToken,
                  destToken = Some dToken\<rparr> = InvokeError e
          \<or> invoke \<lparr>sourceUrl = Some sUrl, destUrl = Some dUrl, sourceToken = Some sToken,
                  destToken = Some dToken\<rparr>
              = InvokeData \<lparr>success = Some False, logs = None, error = Some m\<rparr>"
  then show "\<exists>e'. e' \<noteq> [] \<and> handleClone invoke sUrl dUrl sToken dToken
                 = [(js ''Iniciando mirror via servidor...'', Info), (e', Error)]"
    by (rule handleClone_rejected)
qed

lemmas exec'' = exec' always_def relay_def demo_handler_def demo_body_def serve_def falsy_def
  failure_def handleClone_def mirrorRepo_client_def Let_def non_2xx_def first_entry_def

lemma aborted_run:
  "map_option fst (mirrorRepo 2 (fixture False main_dev always)
      (js ''https://github.com/a/src'') (js ''https://github.com/b/dst'')
      (js ''ts'') (js ''td'') ()) = Some (Inl not_found)"
  by (simp add: exec'')

text \<open>
  C2, as stated, fails: when the remote answers the first request with 404, the server
  function has logged its opening line, the response does not carry it, and the sink
  does not receive it, with either behaviour of the client library.
\<close>

theorem abort_loses_server_entries:
  "logged (snd (the (mirrorRepo 2 (fixture False main_dev always)
      (js ''https://github.com/a/src'') (js ''https://github.com/b/dst'')
      (js ''ts'') (js ''td'') ()))) = [first_entry]
   \<and> demo_handler always \<lparr>req_method = js ''POST'', req_json = Inr demo_body\<rparr>
       = Some \<lparr>resp_status = 500,
               resp_body = Some \<lparr>success = Some False, logs = None,
                                  error = Some not_found\<rparr>\<rparr>
   \<and> handleClone (relay True (demo_handler always))
        (js ''https://github.com/a/src'') (js ''https://github.com/b/dst'')
        (js ''ts'') (js ''td'')
       = [(js ''Iniciando mirror via servidor...'', Info), (non_2xx, Error)]
   \<and> handleClone (relay False (demo_handler always))
        (js ''https://github.com/a/src'') (js ''https://github.com/b/dst'')
        (js ''ts'') (js ''td'')
       = [(js ''Iniciando mirror via servidor...'', Info), (not_found, Error)]"
proof -
  have n: "not_found \<noteq> []" "non_2xx \<noteq> []"
    by (simp_all add: not_found_def non_2xx_def js_empty_iff)
  show ?thesis
    using n by (simp add: exec'')
qed

theorem abort_drops_server_log_witness:
  "logged (snd (the (mirrorRepo 2 (fixture False main_dev always)
      (js ''https://github.com/a/src'') (js ''https://github.com/b/dst'')
      (js ''ts'') (js ''td'') ()))) \<noteq> []
   \<and> serve 2 (fixture False main_dev always)
        \<lparr>req_method = js ''POST'', req_json = Inr demo_body\<rparr> ()
       = Some \<lparr>resp_status = 500,
               resp_body = Some \<lparr>success = Some False, logs = None,
                                  error = Some not_found\<rparr>\<rparr>
   \<and> (\<exists>e'. e' \<noteq> [] \<and> handleClone (relay True (demo_handler always))
        (js ''https://github.com/a/src'') (js ''https://github.com/b/dst'')
        (js ''ts'') (js ''td'')
       = [(js ''Iniciando mirror via servidor...'', Info), (e', Error)])"
proof -
  note run = some_pair [OF aborted_run]
  have u: "js ''https://github.com/a/src'' \<noteq> []" "js ''https://github.com/b/dst'' \<noteq> []"
    "js ''ts'' \<noteq> []" "js ''td'' \<noteq> []"
    by (simp_all add: js_empty_iff)
  have r: "relay True (demo_handler always)
             \<lparr>sourceUrl = Some (js ''https://github.com/a/src''),
              destUrl = Some (js ''https://github.com/b/dst''),
              sourceToken = Some (js ''ts''), destToken = Some (js ''td'')\<rparr>
           = InvokeError non_2xx"
    by (simp add: exec'')
  from abort_drops_server_log [OF run u] r show ?thesis
    by (simp add: demo_body_def)
qed

section \<open>Order of calls, refs and visibility\<close>

lemmas exec_client = exec' cloneRepo_def validateRepo_def deleteAllContents_def getTree_def


lemma client_reference_kinds:
  "map kind (calls (snd (cloneRepo (fixture False main_dev never)
          (js ''https://github.com/a/src'') (js ''https://github.com/b/dst'')
          (js ''ts'') (js ''td'') (start ()))))
   = [KGetRepo, KGetRepo,
      KGetRef, KCreateTree, KCreateCommit, KUpdateRef,
      KGetTree,
      KGetBlob, KCreateBlob, KGetBlob, KCreateBlob,
      KGetRef, KCreateTree, KCreateCommit, KUpdateRef]"
  by (simp add: exec_client)

lemma client_private:
  "fst (cloneRepo (fixture True main_dev never)
          (js ''https://github.com/a/src'') (js ''https://github.com/b/dst'')
          (js ''ts'') (js ''td'') (start ()))
     = Inl (js ''O reposit'' @ [0xF3] @ js ''rio de origem deve ser p'' @ [0xFA] @ js ''blico.'')"
  "map kind (calls (snd (cloneRepo (fixture True main_dev never)
          (js ''https://github.com/a/src'') (js ''https://github.com/b/dst'')
          (js ''ts'') (js ''td'') (start ())))) = [KGetRepo]"
  by (simp_all add: exec_client)

lemma succeeded_calls: "succeeded r \<Longrightarrow> calls_of r = calls (snd (the r))"
  by (auto simp: succeeded_def calls_of_def split: option.splits sum.splits)




text \<open>
  C9. In a run of the browser library and in a run of the server function, at every
  point of the run, each ref update and each ref creation issued so far points at a
  commit that an earlier call of the run created in the same repository.
\<close>

theorem ref_moves_follow_commits:
  "(\<forall>n. refs_ok [] (take n (calls (snd (cloneRepo api sUrl dUrl sToken dToken (start w))))))
   \<and> (mirrorRepo fuel sapi ssUrl sdUrl ssToken sdToken sw = Some (res, sst) \<longrightarrow>
        (\<forall>n. refs_ok [] (take n (calls sst))))"
proof (intro conjI impI allI)
  fix n
  let ?st = "start w :: ('a, log_entry) run"
  let ?p = "cloneRepo api sUrl dUrl sToken dToken ?st"
  have i: "ref_inv {} ?st"
    by (simp add: ref_inv_def start_def)
  have p: "?p = (fst ?p, snd ?p)" by simp
  from validD [OF safe_cloneRepo i p] have "refs_ok [] (calls (snd ?p))"
    by (cases "fst ?p") (simp_all add: ref_inv_def)
  then have "refs_ok [] (take n (calls (snd ?p)) @ drop n (calls (snd ?p)))"
    by simp
  then show "refs_ok [] (take n (calls (snd ?p)))"
    by (rule refs_ok_prefix)
next
  fix n
  assume run: "mirrorRepo fuel sapi ssUrl sdUrl ssToken sdToken sw = Some (res, sst)"
  from safe_mirrorRepo [OF run] have "refs_ok [] (calls sst)"
    by (simp add: ref_inv_def)
  then have "refs_ok [] (take n (calls sst) @ drop n (calls sst))"
    by simp
  then show "refs_ok [] (take n (calls sst))"
    by (rule refs_ok_prefix)
qed

theorem ref_moves_follow_commits_witness:
  "(\<forall>n. refs_ok [] (take n (calls (snd (cloneRepo (fixture False main_dev never)
          (js ''https://github.com/a/src'') (js ''https://github.com/b/dst'')
          (js ''ts'') (js ''td'') (start ()))))))
   \<and> (\<forall>n. refs_ok [] (take n (calls_of (reference_run False))))
   \<and> count_list (map kind (calls_of (reference_run False))) KUpdateRef = 2
   \<and> count_list (map kind (calls_of (reference_run False))) KCreateRef = 1"
proof -
  have run: "mirrorRepo 2 (fixture False main_dev never)
          (js ''https://github.com/a/src'') (js ''https://github.com/b/dst'')
          (js ''ts'') (js ''td'') ()
        = Some (Inr (logs_of (reference_run False)), snd (the (reference_run False)))"
    using succeeded_run [OF reference_succeeded [of False]] by (simp add: reference_run_def)
  have c: "calls_of (reference_run False) = calls (snd (the (reference_run False)))"
    by (rule succeeded_calls [OF reference_succeeded])
  have k: "count_list (map kind (calls_of (reference_run False))) KUpdateRef = 2
           \<and> count_list (map kind (calls_of (reference_run False))) KCreateRef = 1"
    by (simp add: reference_kinds)
  from ref_moves_follow_commits [of "fixture False main_dev never"
      "js ''https://github.com/a/src''" "js ''https://github.com/b/dst''"
      "js ''ts''" "js ''td''" "()" 2 "fixture False main_dev never"
      "js ''https://github.com/a/src''" "js ''https://github.com/b/dst''"
      "js ''ts''" "js ''td''" "()" "Inr (logs_of (reference_run False))"
      "snd (the (reference_run False))"]
    run k
  show ?thesis
    unfolding c by simp
qed

text \<open>
  C1 fails in the server function. When both repositories report themselves private,
  the run succeeds: the log states the visibility, and the four calls of the wipe and
  the calls of the copy and of the commit are made. The browser library stops the same
  scenario after the first request, with the error that the source must be public.
\<close>

theorem private_repositories_are_mirrored:
  "succeeded (reference_run True)
   \<and> take 4 (logs_of (reference_run True))
       = [[0xD83D, 0xDD0D] @ js '' Validando reposit'' @ [0xF3] @ js ''rio de origem...'',
          check_mark @ js '' Origem: a/src (branch: main, privado)'',
          [0xD83D, 0xDD0D] @ js '' Validando reposit'' @ [0xF3] @ js ''rio de destino...'',
          check_mark @ js '' Destino: b/dst (branch: main, privado)'']
   \<and> map kind (calls_of (reference_run True))
       = [KGetRepo, KGetRepo, KListBranches, KGetTree,
          KGetRef, KCreateTree, KCreateCommit, KUpdateRef,
          KGetBlob, KCreateBlob, KGetBlob, KCreateBlob,
          KGetRef, KCreateTree, KCreateCommit, KUpdateRef,
          KGetTree, KGetBlob, KCreateBlob, KCreateTree, KCreateCommit, KCreateRef]
   \<and> fst (cloneRepo (fixture True main_dev never)
          (js ''https://github.com/a/src'') (js ''https://github.com/b/dst'')
          (js ''ts'') (js ''td'') (start ()))
       = Inl (js ''O reposit'' @ [0xF3] @ js ''rio de origem deve ser p'' @ [0xFA] @ js ''blico.'')
   \<and> map kind (calls (snd (cloneRepo (fixture True main_dev never)
          (js ''https://github.com/a/src'') (js ''https://github.com/b/dst'')
          (js ''ts'') (js ''td'') (start ())))) = [KGetRepo]"
proof -
  have "take 4 (logs_of (reference_run True))
       = [[0xD83D, 0xDD0D] @ js '' Validando reposit'' @ [0xF3] @ js ''rio de origem...'',
          check_mark @ js '' Origem: a/src (branch: main, privado)'',
          [0xD83D, 0xDD0D] @ js '' Validando reposit'' @ [0xF3] @ js ''rio de destino...'',
          check_mark @ js '' Destino: b/dst (branch: main, privado)'']"
    by (simp add: reference_logs visibility_def demo_repo_def js_def)
  then show ?thesis
    by (simp only: reference_succeeded reference_kinds client_private simp_thms)
qed

end
